theory Spec2Isabelle
  imports Main "HOL-Library.Word"
begin

unbundle bit_operations_syntax

section \<open>Data model of \<^verbatim>\<open>rangeinference.cpp\<close>\<close>

text \<open>
  The C++ templates are parameterised by an unsigned type \<open>U\<close> and its signed counterpart
  \<open>S\<close> of the same width \<open>W\<close>. Both are modelled by \<open>'a word\<close> with \<open>W = LENGTH('a)\<close>:
  a value of type \<open>S\<close> is the same bit pattern read through \<open>sint\<close>, so the conversions
  \<open>S(u)\<close> and \<open>U(s)\<close> are the identity and signed comparisons are \<open>\<le>s\<close> and \<open><s\<close>.
  The structs \<open>RangeInt\<close>, \<open>KnownBits\<close> and \<open>TypeIntPrototype\<close> are declared in
  \<^verbatim>\<open>rangeinference.hpp\<close>; their fields are taken from their uses in the source.
\<close>

record 'a RangeInt =
  r_lo :: 'a
  r_hi :: 'a

record 'a KnownBits =
  k_zeros :: 'a
  k_ones :: 'a

text \<open>\<^verbatim>\<open>template <class T> class AdjustResult\<close>\<close>

record 'r AdjustResult =
  a_progress :: bool
  a_is_result_consistent :: bool
  a_result :: 'r

text \<open>\<^verbatim>\<open>template <class U> class SimpleCanonicalResult\<close>\<close>

record 'a SimpleCanonicalResult =
  s_present :: bool
  s_bounds :: "'a RangeInt"
  s_bits :: "'a KnownBits"

text \<open>
  \<^verbatim>\<open>AdjustResult<RangeInt<U>>::make_empty()\<close> is \<^verbatim>\<open>{true, false, {}}\<close>: the payload is
  value-initialised, so both bounds are 0.
\<close>

definition make_empty_bounds :: "'a::len word RangeInt AdjustResult" where
  "make_empty_bounds =
     \<lparr>a_progress = True, a_is_result_consistent = False, a_result = \<lparr>r_lo = 0, r_hi = 0\<rparr>\<rparr>"

text \<open>\<^verbatim>\<open>SimpleCanonicalResult<U>::make_empty()\<close> is \<^verbatim>\<open>{false, {}, {}}\<close>.\<close>

definition make_empty_simple :: "'a::len word SimpleCanonicalResult" where
  "make_empty_simple =
     \<lparr>s_present = False, s_bounds = \<lparr>r_lo = 0, r_hi = 0\<rparr>,
      s_bits = \<lparr>k_zeros = 0, k_ones = 0\<rparr>\<rparr>"

text \<open>
  Modelled from the spec: \<^verbatim>\<open>KnownBits<U>::is_satisfied_by\<close> is declared in
  \<^verbatim>\<open>rangeinference.hpp\<close>. The spec, section 3: a value \<open>v\<close> is satisfied by bits iff
  \<^verbatim>\<open>(v & zeros) == 0 && (~v & ones) == 0\<close>.
\<close>

definition is_satisfied_by :: "'a::len word KnownBits \<Rightarrow> 'a word \<Rightarrow> bool" where
  "is_satisfied_by bits v \<longleftrightarrow> v AND k_zeros bits = 0 \<and> NOT v AND k_ones bits = 0"

text \<open>A \<open>KnownBits\<close> is consistent iff no position is claimed both 0 and 1.\<close>

definition consistent :: "'a::len word KnownBits \<Rightarrow> bool" where
  "consistent bits \<longleftrightarrow> k_zeros bits AND k_ones bits = 0"

section \<open>Primitive operations\<close>

text \<open>
  Modelled from the spec: \<^verbatim>\<open>count_leading_zeros\<close> lives in
  \<^verbatim>\<open>utilities/count_leading_zeros.hpp\<close>; the spec, section 4.4, calls it the count of
  leading zero bits. It scans from the most significant bit downwards. The source only
  calls it on non-zero arguments.
\<close>

definition count_leading_zeros :: "'a::len word \<Rightarrow> nat" where
  "count_leading_zeros x = length (takeWhile (\<lambda>i. \<not> bit x i) (rev [0..<LENGTH('a)]))"

text \<open>
  The C++ expression \<^verbatim>\<open>x << n\<close> on an unsigned \<open>U\<close> of width \<open>W\<close>. The language defines it
  only for \<open>n < W\<close>; a shift count of \<open>W\<close> or more is undefined behaviour, which the model
  records as \<open>None\<close>.
\<close>

definition shift_left :: "'a::len word \<Rightarrow> nat \<Rightarrow> 'a word option" where
  "shift_left x n = (if n < LENGTH('a) then Some (push_bit n x) else None)"

section \<open>\<^verbatim>\<open>adjust_lo\<close>\<close>

text \<open>
  The smallest value not less than \<open>lo\<close> that satisfies \<open>bits\<close>. The two branches follow the
  source: a first violation that is a missing one, and a first violation that is a one
  where a zero is demanded. \<open>None\<close> is the undefined shift of \<^verbatim>\<open>find_mask\<close>.
\<close>

definition adjust_lo :: "'a::len word \<Rightarrow> 'a word KnownBits \<Rightarrow> 'a word option" where
  "adjust_lo lo bits =
     (let zero_violation = lo AND k_zeros bits;
          one_violation = NOT lo AND k_ones bits
      in if zero_violation = one_violation then Some lo
         else if zero_violation < one_violation then
           (let first_violation = LENGTH('a) - 1 - count_leading_zeros one_violation
            in case shift_left 1 first_violation of
                 None \<Rightarrow> None
               | Some alignment \<Rightarrow>
                   (let new_lo = (lo AND - alignment) + alignment
                    in Some (new_lo OR k_ones bits)))
         else
           (let first_violation = LENGTH('a) - count_leading_zeros zero_violation
            in case shift_left (- 1) first_violation of
                 None \<Rightarrow> None
               | Some find_mask \<Rightarrow>
                   (let either = lo OR k_zeros bits;
                        tmp = NOT either AND find_mask;
                        alignment = tmp AND (- tmp);
                        new_lo = (lo AND - alignment) + alignment
                    in Some (new_lo OR k_ones bits))))"

section \<open>Tightening the bounds from the bits\<close>

text \<open>
  The new lower bound is \<open>adjust_lo\<close> of the old one; the new upper bound comes from
  \<open>adjust_lo\<close> on the complement with zeros and ones exchanged. A bound that crosses its
  old value gives \<^verbatim>\<open>make_empty()\<close>; otherwise the result is consistent iff the new
  bounds are still ordered.
\<close>

definition adjust_bounds_from_bits ::
  "'a::len word RangeInt \<Rightarrow> 'a word KnownBits \<Rightarrow> 'a word RangeInt AdjustResult option" where
  "adjust_bounds_from_bits bounds bits =
     (case adjust_lo (r_lo bounds) bits of
        None \<Rightarrow> None
      | Some new_lo \<Rightarrow>
          if new_lo < r_lo bounds then Some make_empty_bounds
          else
            (case adjust_lo (NOT (r_hi bounds))
                    \<lparr>k_zeros = k_ones bits, k_ones = k_zeros bits\<rparr> of
               None \<Rightarrow> None
             | Some flipped \<Rightarrow>
                 (let new_hi = NOT flipped
                  in if r_hi bounds < new_hi then Some make_empty_bounds
                     else
                       (let progress = (new_lo \<noteq> r_lo bounds \<or> new_hi \<noteq> r_hi bounds);
                            present = (new_lo \<le> new_hi)
                        in Some \<lparr>a_progress = progress, a_is_result_consistent = present,
                                 a_result = \<lparr>r_lo = new_lo, r_hi = new_hi\<rparr>\<rparr>))))"

section \<open>Tightening the bits from the bounds\<close>

text \<open>
  The common prefix of \<open>lo\<close> and \<open>hi\<close> is known in every value between them. The right
  shift \<^verbatim>\<open>max >> count_leading_zeros(mismatch)\<close> is only evaluated for a non-zero
  mismatch, where the count is below the width, so it is always defined.
\<close>

definition adjust_bits_from_bounds ::
  "'a::len word KnownBits \<Rightarrow> 'a word RangeInt \<Rightarrow> 'a word KnownBits AdjustResult" where
  "adjust_bits_from_bounds bits bounds =
     (let mismatch = r_lo bounds XOR r_hi bounds;
          match_mask = (if mismatch = 0 then - 1
                        else NOT (drop_bit (count_leading_zeros mismatch) (- 1)));
          new_zeros = k_zeros bits OR (match_mask AND NOT (r_lo bounds));
          new_ones = k_ones bits OR (match_mask AND r_lo bounds);
          progress = (new_zeros \<noteq> k_zeros bits \<or> new_ones \<noteq> k_ones bits);
          present = (new_zeros AND new_ones = 0)
      in \<lparr>a_progress = progress, a_is_result_consistent = present,
          a_result = \<lparr>k_zeros = new_zeros, k_ones = new_ones\<rparr>\<rparr>)"

section \<open>The fixed-point loop\<close>

text \<open>
  The \<^verbatim>\<open>while (true)\<close> loop of \<^verbatim>\<open>canonicalize_constraints_simple\<close>. Its state is the
  pair of payloads \<^verbatim>\<open>nbounds._result\<close> and \<^verbatim>\<open>nbits._result\<close>. The first argument counts the
  iterations completed so far and the first component of the value is the number of
  iterations started when the loop leaves; the count is not part of the source. The
  second component is the value returned, \<open>None\<close> when an undefined shift was reached.
\<close>

function simple_loop ::
  "nat \<Rightarrow> 'a::len word RangeInt \<Rightarrow> 'a word KnownBits
     \<Rightarrow> nat \<times> 'a word SimpleCanonicalResult option" where
  "simple_loop n bounds bits =
     (case adjust_bounds_from_bits bounds bits of
        None \<Rightarrow> (Suc n, None)
      | Some nbounds \<Rightarrow>
          if \<not> a_progress nbounds \<or> \<not> a_is_result_consistent nbounds then
            (Suc n, Some \<lparr>s_present = a_is_result_consistent nbounds,
                          s_bounds = a_result nbounds, s_bits = bits\<rparr>)
          else
            (let nbits = adjust_bits_from_bounds bits (a_result nbounds)
             in if \<not> a_progress nbits \<or> \<not> a_is_result_consistent nbits then
                  (Suc n, Some \<lparr>s_present = a_is_result_consistent nbits,
                                s_bounds = a_result nbounds, s_bits = a_result nbits\<rparr>)
                else simple_loop (Suc n) (a_result nbounds) (a_result nbits)))"
  by pat_completeness auto

text \<open>
  \<^verbatim>\<open>canonicalize_constraints_simple\<close>: the bits are first tightened from the bounds, then the
  loop runs. The run returns the number of loop iterations together with the result.
\<close>

definition canonicalize_constraints_simple_run ::
  "'a::len word RangeInt \<Rightarrow> 'a word KnownBits \<Rightarrow> nat \<times> 'a word SimpleCanonicalResult option" where
  "canonicalize_constraints_simple_run bounds bits =
     (let nbits = adjust_bits_from_bounds bits bounds
      in if \<not> a_is_result_consistent nbits then (0, Some make_empty_simple)
         else simple_loop 0 bounds (a_result nbits))"

definition canonicalize_constraints_simple ::
  "'a::len word RangeInt \<Rightarrow> 'a word KnownBits \<Rightarrow> 'a word SimpleCanonicalResult option" where
  "canonicalize_constraints_simple bounds bits =
     snd (canonicalize_constraints_simple_run bounds bits)"

definition simple_iterations :: "'a::len word RangeInt \<Rightarrow> 'a word KnownBits \<Rightarrow> nat" where
  "simple_iterations bounds bits = fst (canonicalize_constraints_simple_run bounds bits)"

section \<open>\<^verbatim>\<open>TypeIntPrototype::canonicalize_constraints\<close>\<close>

text \<open>
  \<^verbatim>\<open>TypeIntPrototype<S, U>\<close> holds the signed range, the unsigned range and the bits; the
  signed range is stored as bit patterns and compared with the signed order.
  \<^verbatim>\<open>CanonicalizedTypeIntPrototype\<close> is \<^verbatim>\<open>{_present, _data}\<close>.
\<close>

record 'a TypeIntPrototype =
  p_srange :: "'a RangeInt"
  p_urange :: "'a RangeInt"
  p_bits :: "'a KnownBits"

record 'a CanonicalizedTypeIntPrototype =
  c_present :: bool
  c_data :: "'a TypeIntPrototype"

text \<open>
  Modelled from the spec: \<^verbatim>\<open>CanonicalizedTypeIntPrototype::make_empty()\<close> is declared in
  \<^verbatim>\<open>rangeinference.hpp\<close>. The spec, section 3: \<open>present = false\<close> denotes the empty set and
  the data is meaningless; as in the other \<^verbatim>\<open>make_empty\<close> functions it is value-initialised.
\<close>

definition make_empty_canonical :: "'a::len word CanonicalizedTypeIntPrototype" where
  "make_empty_canonical =
     \<lparr>c_present = False,
      c_data = \<lparr>p_srange = \<lparr>r_lo = 0, r_hi = 0\<rparr>, p_urange = \<lparr>r_lo = 0, r_hi = 0\<rparr>,
                p_bits = \<lparr>k_zeros = 0, k_ones = 0\<rparr>\<rparr>\<rparr>"

text \<open>\<^verbatim>\<open>std::numeric_limits<S>::max()\<close> and \<^verbatim>\<open>min()\<close>, as bit patterns.\<close>

definition max_S :: "'a::len word" where
  "max_S = mask (LENGTH('a) - 1)"

definition min_S :: "'a::len word" where
  "min_S = push_bit (LENGTH('a) - 1) 1"

text \<open>\<^verbatim>\<open>MAX2<S>\<close> and \<^verbatim>\<open>MIN2<S>\<close>: both arguments are converted to \<open>S\<close> and compared as signed.\<close>

definition MAX2_S :: "'a::len word \<Rightarrow> 'a word \<Rightarrow> 'a word" where
  "MAX2_S a b = (if b <s a then a else b)"

definition MIN2_S :: "'a::len word \<Rightarrow> 'a word \<Rightarrow> 'a word" where
  "MIN2_S a b = (if a <s b then a else b)"

text \<open>The result built from one \<open>SimpleCanonicalResult\<close>: the signed range is the cast of its bounds.\<close>

definition prototype_of_simple :: "'a::len word SimpleCanonicalResult \<Rightarrow> 'a word TypeIntPrototype" where
  "prototype_of_simple t =
     \<lparr>p_srange = \<lparr>r_lo = r_lo (s_bounds t), r_hi = r_hi (s_bounds t)\<rparr>,
      p_urange = s_bounds t, p_bits = s_bits t\<rparr>"

definition canonicalize_constraints ::
  "'a::len word TypeIntPrototype \<Rightarrow> 'a word CanonicalizedTypeIntPrototype option" where
  "canonicalize_constraints p =
     (let srange = p_srange p; urange = p_urange p; bits = p_bits p
      in if r_hi srange <s r_lo srange \<or> r_hi urange < r_lo urange
            \<or> k_zeros bits AND k_ones bits \<noteq> 0
         then Some make_empty_canonical
         else
           (let urange =
                  (if r_hi urange <s r_lo urange then
                     (if r_hi urange <s r_lo srange then urange\<lparr>r_hi := max_S\<rparr>
                      else if r_hi srange <s r_lo urange then urange\<lparr>r_lo := min_S\<rparr>
                      else urange)
                   else urange)
            in if r_lo urange \<le>s r_hi urange then
                 (let urange = urange\<lparr>r_lo := MAX2_S (r_lo urange) (r_lo srange)\<rparr>;
                      urange = urange\<lparr>r_hi := MIN2_S (r_hi urange) (r_hi srange)\<rparr>
                  in if r_hi urange < r_lo urange then Some make_empty_canonical
                     else
                       (case canonicalize_constraints_simple urange bits of
                          None \<Rightarrow> None
                        | Some type \<Rightarrow>
                            Some \<lparr>c_present = s_present type,
                                  c_data = prototype_of_simple type\<rparr>))
               else
                 (case canonicalize_constraints_simple
                         \<lparr>r_lo = r_lo srange, r_hi = r_hi urange\<rparr> bits of
                    None \<Rightarrow> None
                  | Some neg_type \<Rightarrow>
                      (case canonicalize_constraints_simple
                              \<lparr>r_lo = r_lo urange, r_hi = r_hi srange\<rparr> bits of
                         None \<Rightarrow> None
                       | Some pos_type \<Rightarrow>
                           if \<not> s_present neg_type \<and> \<not> s_present pos_type then
                             Some make_empty_canonical
                           else if \<not> s_present neg_type then
                             Some \<lparr>c_present = True, c_data = prototype_of_simple pos_type\<rparr>
                           else if \<not> s_present pos_type then
                             Some \<lparr>c_present = True, c_data = prototype_of_simple neg_type\<rparr>
                           else
                             Some \<lparr>c_present = True,
                                   c_data =
                                     \<lparr>p_srange = \<lparr>r_lo = r_lo (s_bounds neg_type),
                                                  r_hi = r_hi (s_bounds pos_type)\<rparr>,
                                      p_urange = \<lparr>r_lo = r_lo (s_bounds pos_type),
                                                  r_hi = r_hi (s_bounds neg_type)\<rparr>,
                                      p_bits = \<lparr>k_zeros = k_zeros (s_bits neg_type)
                                                          AND k_zeros (s_bits pos_type),
                                                k_ones = k_ones (s_bits neg_type)
                                                         AND k_ones (s_bits pos_type)\<rparr>\<rparr>\<rparr>))))"

text \<open>\<^verbatim>\<open>TypeIntPrototype::contains\<close>: membership of a value in the set a prototype denotes.\<close>

definition contains :: "'a::len word TypeIntPrototype \<Rightarrow> 'a word \<Rightarrow> bool" where
  "contains p v \<longleftrightarrow>
     r_lo (p_srange p) \<le>s v \<and> v \<le>s r_hi (p_srange p) \<and>
     r_lo (p_urange p) \<le> v \<and> v \<le> r_hi (p_urange p) \<and> is_satisfied_by (p_bits p) v"

section \<open>\<^verbatim>\<open>TypeIntHelper::int_type_widen\<close>\<close>

text \<open>
  The type objects \<^verbatim>\<open>TypeInt\<close> and \<^verbatim>\<open>TypeLong\<close> (\<^verbatim>\<open>CT\<close> in the source) are declared in
  \<^verbatim>\<open>type.hpp\<close>; the fields are those the source reads. A pointer to a type is an
  \<open>option\<close>, \<open>None\<close> being \<^verbatim>\<open>nullptr\<close>.
\<close>

record 'a TypeInt =
  t_lo :: 'a
  t_hi :: 'a
  t_ulo :: 'a
  t_uhi :: 'a
  t_bits :: "'a KnownBits"
  t_widen :: int

text \<open>
  Modelled from the spec: \<^verbatim>\<open>int_type_is_equal\<close> is declared in \<^verbatim>\<open>rangeinference.hpp\<close>. The
  spec, section 4.9: the new type is structurally equal to the old one; the structure is
  the triple of signed range, unsigned range and bits.
\<close>

definition int_type_is_equal :: "'a::len word TypeInt \<Rightarrow> 'a word TypeInt \<Rightarrow> bool" where
  "int_type_is_equal t1 t2 \<longleftrightarrow>
     t_lo t1 = t_lo t2 \<and> t_hi t1 = t_hi t2 \<and> t_ulo t1 = t_ulo t2 \<and> t_uhi t1 = t_uhi t2
     \<and> k_zeros (t_bits t1) = k_zeros (t_bits t2) \<and> k_ones (t_bits t1) = k_ones (t_bits t2)"

text \<open>
  Modelled from the spec: \<^verbatim>\<open>int_type_is_subset\<close> is declared in \<^verbatim>\<open>rangeinference.hpp\<close>. The
  spec, section 4.9: the first type is a superset of the second; on triples, both ranges of
  the superset enclose those of the subset and every bit the superset knows is known to
  the subset with the same value.
\<close>

definition int_type_is_subset :: "'a::len word TypeInt \<Rightarrow> 'a word TypeInt \<Rightarrow> bool" where
  "int_type_is_subset super sub \<longleftrightarrow>
     t_lo super \<le>s t_lo sub \<and> t_hi sub \<le>s t_hi super
     \<and> t_ulo super \<le> t_ulo sub \<and> t_uhi sub \<le> t_uhi super
     \<and> k_zeros (t_bits super) AND NOT (k_zeros (t_bits sub)) = 0
     \<and> k_ones (t_bits super) AND NOT (k_ones (t_bits sub)) = 0"

text \<open>
  Modelled from the spec: \<^verbatim>\<open>singleton()\<close> is a method of the type object. The spec, section
  4.9: the old type was a single-value constant.
\<close>

definition singleton_type :: "'a::len word TypeInt \<Rightarrow> bool" where
  "singleton_type t \<longleftrightarrow> t_lo t = t_hi t"

text \<open>
  Modelled from the spec: \<^verbatim>\<open>CT::TYPE_DOMAIN\<close> is declared in \<^verbatim>\<open>type.hpp\<close>. The spec, sections
  4.7 and 4.9: the universal domain for the width, whose widen hint is the maximum.
\<close>

definition TYPE_DOMAIN :: "int \<Rightarrow> 'a::len word TypeInt" where
  "TYPE_DOMAIN WidenMax =
     \<lparr>t_lo = min_S, t_hi = max_S, t_ulo = 0, t_uhi = - 1,
      t_bits = \<lparr>k_zeros = 0, k_ones = 0\<rparr>, t_widen = WidenMax\<rparr>"

text \<open>
  \<^verbatim>\<open>int_type_widen\<close>, branch by branch as in the source. \<^verbatim>\<open>CT::try_make\<close> and
  \<^verbatim>\<open>Type::WidenMax\<close> are not in the source file: they are the first two parameters.
  \<open>new_type\<close> is dereferenced unconditionally after the first test, so it is a type, not
  a pointer that may be null.
\<close>

definition int_type_widen ::
  "('a::len word TypeIntPrototype \<Rightarrow> int \<Rightarrow> 'a word TypeInt option) \<Rightarrow> int
     \<Rightarrow> 'a word TypeInt \<Rightarrow> 'a word TypeInt option \<Rightarrow> 'a word TypeInt option
     \<Rightarrow> 'a word TypeInt option" where
  "int_type_widen try_make WidenMax new_type old_type limit_type =
     (case old_type of
        None \<Rightarrow> Some new_type
      | Some old \<Rightarrow>
          if int_type_is_equal new_type old then Some old
          else if int_type_is_subset old new_type then Some old
          else if \<not> int_type_is_subset new_type old then Some (TYPE_DOMAIN WidenMax)
          else if singleton_type old then Some new_type
          else if t_widen old < t_widen new_type then Some new_type
          else if t_widen new_type < WidenMax then
            try_make \<lparr>p_srange = \<lparr>r_lo = t_lo new_type, r_hi = t_hi new_type\<rparr>,
                      p_urange = \<lparr>r_lo = t_ulo new_type, r_hi = t_uhi new_type\<rparr>,
                      p_bits = t_bits new_type\<rparr>
                     (t_widen new_type + 1)
          else
            (case limit_type of
               None \<Rightarrow>
                 try_make \<lparr>p_srange = \<lparr>r_lo = min_S, r_hi = max_S\<rparr>,
                           p_urange = \<lparr>r_lo = 0, r_hi = - 1\<rparr>,
                           p_bits = \<lparr>k_zeros = k_zeros (t_bits new_type),
                                     k_ones = k_ones (t_bits new_type)\<rparr>\<rparr>
                          WidenMax
             | Some limit \<Rightarrow>
                 try_make \<lparr>p_srange = \<lparr>r_lo = t_lo limit, r_hi = t_hi limit\<rparr>,
                           p_urange = \<lparr>r_lo = t_ulo limit, r_hi = t_uhi limit\<rparr>,
                           p_bits = \<lparr>k_zeros = k_zeros (t_bits new_type) OR k_zeros (t_bits limit),
                                     k_ones = k_ones (t_bits new_type) OR k_ones (t_bits limit)\<rparr>\<rparr>
                          WidenMax))"

text \<open>
  Iterated widening: each result is fed back as the old type of the next call, against
  the next new type of the sequence.
\<close>

fun widen_iterate ::
  "('a::len word TypeIntPrototype \<Rightarrow> int \<Rightarrow> 'a word TypeInt option) \<Rightarrow> int
     \<Rightarrow> 'a word TypeInt option \<Rightarrow> 'a word TypeInt option \<Rightarrow> 'a word TypeInt list
     \<Rightarrow> 'a word TypeInt option" where
  "widen_iterate try_make WidenMax limit_type old_type [] = old_type"
| "widen_iterate try_make WidenMax limit_type old_type (new_type # news) =
     widen_iterate try_make WidenMax limit_type
       (int_type_widen try_make WidenMax new_type old_type limit_type) news"

text \<open>
  Modelled from the spec: \<^verbatim>\<open>cardinality_from_bounds\<close> is declared in
  \<^verbatim>\<open>rangeinference.hpp\<close>. The spec, section 4.7: the cardinality of the set; counted from
  the bounds, one interval when the two ranges are the same and two intervals otherwise.
\<close>

definition cardinality_from_bounds :: "'a::len word RangeInt \<Rightarrow> 'a word RangeInt \<Rightarrow> nat" where
  "cardinality_from_bounds srange urange =
     (if r_lo srange = r_lo urange then unat (r_hi urange) - unat (r_lo urange) + 1
      else (unat (r_hi urange) - unat (r_lo srange) + 1)
           + (unat (r_hi srange) - unat (r_lo urange) + 1))"

text \<open>
  \<^verbatim>\<open>TypeIntPrototype::normalize_widen\<close>, with \<^verbatim>\<open>SMALL_TYPEINT_THRESHOLD = 3\<close>.
  \<^verbatim>\<open>Type::WidenMin\<close> and \<^verbatim>\<open>Type::WidenMax\<close> are parameters.
\<close>

definition SMALL_TYPEINT_THRESHOLD :: nat where
  "SMALL_TYPEINT_THRESHOLD = 3"

definition normalize_widen :: "int \<Rightarrow> int \<Rightarrow> 'a::len word TypeIntPrototype \<Rightarrow> int \<Rightarrow> int" where
  "normalize_widen WidenMin WidenMax p w =
     (if cardinality_from_bounds (p_srange p) (p_urange p) \<le> SMALL_TYPEINT_THRESHOLD then WidenMin
      else if r_lo (p_srange p) = min_S \<and> r_hi (p_srange p) = max_S
              \<and> r_lo (p_urange p) = 0 \<and> r_hi (p_urange p) = - 1
              \<and> k_zeros (p_bits p) = 0 \<and> k_ones (p_bits p) = 0 then WidenMax
      else w)"

text \<open>
  Modelled from the spec: \<^verbatim>\<open>CT::try_make\<close> is defined in \<^verbatim>\<open>type.cpp\<close>. The spec, sections
  4.9 and 6: the candidate is canonicalized; an empty result gives no type, otherwise the
  canonical triple becomes the type, with the widen hint classified as in section 4.7.
  The canonicalization always has a result (lemma \<open>canonicalize_constraints_defined\<close>
  below), so its \<open>None\<close> never shows here.
\<close>

definition try_make ::
  "int \<Rightarrow> int \<Rightarrow> 'a::len word TypeIntPrototype \<Rightarrow> int \<Rightarrow> 'a word TypeInt option" where
  "try_make WidenMin WidenMax p w =
     (case canonicalize_constraints p of
        None \<Rightarrow> None
      | Some c \<Rightarrow>
          if c_present c then
            Some \<lparr>t_lo = r_lo (p_srange (c_data c)), t_hi = r_hi (p_srange (c_data c)),
                  t_ulo = r_lo (p_urange (c_data c)), t_uhi = r_hi (p_urange (c_data c)),
                  t_bits = p_bits (c_data c),
                  t_widen = normalize_widen WidenMin WidenMax (c_data c) w\<rparr>
          else None)"

text \<open>The range \<open>[0, 2\<^sup>n - 1]\<close> with its canonical bits, as a type with widen hint \<open>w\<close>.\<close>

definition range_type :: "nat \<Rightarrow> int \<Rightarrow> 32 word TypeInt" where
  "range_type n w =
     \<lparr>t_lo = 0, t_hi = mask n, t_ulo = 0, t_uhi = mask n,
      t_bits = \<lparr>k_zeros = NOT (mask n), k_ones = 0\<rparr>, t_widen = w\<rparr>"

definition range_prototype :: "nat \<Rightarrow> 32 word TypeIntPrototype" where
  "range_prototype n =
     \<lparr>p_srange = \<lparr>r_lo = 0, r_hi = mask n\<rparr>, p_urange = \<lparr>r_lo = 0, r_hi = mask n\<rparr>,
      p_bits = \<lparr>k_zeros = 0, k_ones = 0\<rparr>\<rparr>"

section \<open>Notions used in the proofs\<close>

text \<open>
  The notions of the proof in the source's comment. A value satisfies the bits at a
  position when it has no 1 where a 0 is demanded and no 0 where a 1 is demanded. A
  \<^emph>\<open>pivot\<close> of \<open>lo\<close> is a position that is 0 in \<open>lo\<close> and in \<open>zeros\<close> such that \<open>lo\<close>
  satisfies the bits at every higher position: the first position where a value above
  \<open>lo\<close> that satisfies the bits can differ from \<open>lo\<close>. \<open>round_up_at\<close> sets the pivot,
  clears what is below and ors in \<open>ones\<close>, with the source's arithmetic.
\<close>

definition satisfied_at :: "'a::len word KnownBits \<Rightarrow> 'a word \<Rightarrow> nat \<Rightarrow> bool" where
  "satisfied_at bits v n \<longleftrightarrow>
     \<not> (bit v n \<and> bit (k_zeros bits) n) \<and> \<not> (\<not> bit v n \<and> bit (k_ones bits) n)"

definition pivot :: "'a::len word KnownBits \<Rightarrow> 'a word \<Rightarrow> nat \<Rightarrow> bool" where
  "pivot bits lo p \<longleftrightarrow>
     p < LENGTH('a) \<and> \<not> bit lo p \<and> \<not> bit (k_zeros bits) p \<and> (\<forall>m>p. satisfied_at bits lo m)"

definition round_up_at :: "'a::len word \<Rightarrow> 'a word KnownBits \<Rightarrow> nat \<Rightarrow> 'a word" where
  "round_up_at lo bits p = ((lo AND - (2 ^ p)) + 2 ^ p) OR k_ones bits"

text \<open>The mask of \<open>adjust_bits_from_bounds\<close> covers only positions where the bounds agree.\<close>

definition match_mask :: "'a::len word RangeInt \<Rightarrow> 'a word" where
  "match_mask bounds =
     (if r_lo bounds XOR r_hi bounds = 0 then - 1
      else NOT (drop_bit (count_leading_zeros (r_lo bounds XOR r_hi bounds)) (- 1)))"

section \<open>Termination of the loop\<close>

text \<open>
  A productive, consistent step of \<open>adjust_bits_from_bounds\<close> pins at least one more bit
  position: the union of the two masks grows strictly. This is the measure of the loop.
\<close>

lemma known_bits_grow:
  fixes z :: "'a::len word"
  assumes "(z OR x) AND (o' OR y) = 0" and "z OR x \<noteq> z \<or> o' OR y \<noteq> o'"
  shows "z OR o' < (z OR x) OR (o' OR y)"
proof -
  have eq: "(z OR x) OR (o' OR y) = (z OR o') OR (x OR y)"
    by (simp add: ac_simps)
  have "(z OR o') OR (x OR y) \<noteq> z OR o'"
  proof
    assume e: "(z OR o') OR (x OR y) = z OR o'"
    have sub: "bit x n \<or> bit y n \<Longrightarrow> bit z n \<or> bit o' n" for n
      using arg_cong [OF e, of "\<lambda>w. bit w n"] by (auto simp: bit_or_iff)
    have dis: "\<not> ((bit z n \<or> bit x n) \<and> (bit o' n \<or> bit y n))" for n
      using arg_cong [OF assms(1), of "\<lambda>w. bit w n"] by (auto simp: bit_or_iff bit_and_iff)
    have "z OR x = z"
      by (rule bit_eqI) (use sub dis in \<open>auto simp: bit_or_iff\<close>)
    moreover have "o' OR y = o'"
      by (rule bit_eqI) (use sub dis in \<open>auto simp: bit_or_iff\<close>)
    ultimately show False using assms(2) by simp
  qed
  then show ?thesis
    unfolding eq using le_word_or2 [of "z OR o'" "x OR y"] by (simp add: order_less_le)
qed

lemma adjust_bits_from_bounds_measure:
  assumes "a_progress (adjust_bits_from_bounds bits bounds)"
    and "a_is_result_consistent (adjust_bits_from_bounds bits bounds)"
  shows "2 ^ LENGTH('a) - unat (k_zeros (a_result (adjust_bits_from_bounds bits bounds))
                 OR k_ones (a_result (adjust_bits_from_bounds bits bounds)))
       < 2 ^ LENGTH('a) - unat (k_zeros bits OR k_ones (bits :: 'a::len word KnownBits))"
proof -
  define u where "u = k_zeros bits OR k_ones bits"
  define u' where "u' = k_zeros (a_result (adjust_bits_from_bounds bits bounds))
        OR k_ones (a_result (adjust_bits_from_bounds bits bounds))"
  from assms have "u < u'"
    unfolding adjust_bits_from_bounds_def Let_def u_def u'_def
    by (simp add: known_bits_grow
          del: bit.conj_disj_distrib bit.conj_disj_distrib2
               bit.disj_conj_distrib bit.disj_conj_distrib2)
  then have "unat u < unat u'" by (simp add: word_less_nat_alt)
  moreover have "unat u' < 2 ^ LENGTH('a)" by simp
  ultimately show ?thesis unfolding u_def u'_def by arith
qed

termination simple_loop
proof (relation "measure (\<lambda>(n, bounds, bits).
          2 ^ LENGTH('a) - unat (k_zeros bits OR k_ones (bits :: 'a::len word KnownBits)))",
       goal_cases)
  case 1
  show ?case by simp
next
  case (2 n bounds bits nbounds nbits)
  then show ?case using adjust_bits_from_bounds_measure by auto
qed

declare simple_loop.simps [simp del]

section \<open>Leading zeros\<close>

text \<open>For a non-zero word the count is below the width and marks the highest set bit.\<close>

lemma count_leading_zeros_less:
  fixes x :: "'a::len word"
  assumes "x \<noteq> 0"
  shows "count_leading_zeros x < LENGTH('a)"
proof -
  from assms obtain i where i: "bit x i" by (auto simp: bit_eq_iff)
  then have "i < LENGTH('a)" by (rule bit_imp_le_length)
  with i have "\<exists>j \<in> set (rev [0..<LENGTH('a)]). \<not> \<not> bit x j" by auto
  then have "takeWhile (\<lambda>i. \<not> bit x i) (rev [0..<LENGTH('a)]) \<noteq> rev [0..<LENGTH('a)]"
    unfolding takeWhile_eq_all_conv by blast
  moreover have "length (takeWhile (\<lambda>i. \<not> bit x i) (rev [0..<LENGTH('a)])) \<le> LENGTH('a)"
    using length_takeWhile_le [of "\<lambda>i. \<not> bit x i" "rev [0..<LENGTH('a)]"] by simp
  ultimately show ?thesis
    unfolding count_leading_zeros_def
    by (metis (no_types, lifting) diff_zero le_neq_implies_less length_rev length_upt
        takeWhile_eq_take take_all order_refl)
qed

lemma count_leading_zeros_top_bit:
  fixes x :: "'a::len word"
  assumes "x \<noteq> 0"
  shows "bit x (LENGTH('a) - 1 - count_leading_zeros x)"
proof -
  let ?xs = "rev [0..<LENGTH('a)]"
  let ?c = "count_leading_zeros x"
  have c: "?c < length ?xs" using count_leading_zeros_less [OF assms] by simp
  then have "\<not> \<not> bit x (?xs ! ?c)"
    unfolding count_leading_zeros_def by (rule nth_length_takeWhile)
  moreover have "?xs ! ?c = LENGTH('a) - 1 - ?c"
    using c by (simp add: rev_nth)
  ultimately show ?thesis by simp
qed

lemma count_leading_zeros_above:
  fixes x :: "'a::len word"
  assumes "LENGTH('a) - count_leading_zeros x \<le> n"
  shows "\<not> bit x n"
proof (cases "n < LENGTH('a)")
  case False
  then show ?thesis by (auto dest: bit_imp_le_length)
next
  case True
  let ?xs = "rev [0..<LENGTH('a)]"
  let ?P = "\<lambda>i. \<not> bit x i"
  let ?j = "LENGTH('a) - 1 - n"
  have j: "?j < length (takeWhile ?P ?xs)"
    using assms True unfolding count_leading_zeros_def by arith
  then have "takeWhile ?P ?xs ! ?j \<in> set (takeWhile ?P ?xs)" by (rule nth_mem)
  then have "?P (takeWhile ?P ?xs ! ?j)" by (rule set_takeWhileD [THEN conjunct2])
  moreover have "takeWhile ?P ?xs ! ?j = ?xs ! ?j" using j by (rule takeWhile_nth)
  moreover have "?xs ! ?j = n" using True by (simp add: rev_nth)
  ultimately show ?thesis by simp
qed

section \<open>The order of words, bit by bit\<close>

lemma nat_less_top_diff:
  fixes A B :: nat
  assumes eq: "\<And>m. n < m \<Longrightarrow> bit A m = bit B m" and a: "\<not> bit A n" and b: "bit B n"
  shows "A < B"
proof -
  have d: "drop_bit (Suc n) A = drop_bit (Suc n) B"
    by (rule bit_eqI) (simp add: bit_drop_bit_eq eq)
  have "take_bit (Suc n) A = take_bit n A"
    using a by (simp add: take_bit_Suc_from_most)
  then have ta: "take_bit (Suc n) A < 2 ^ n" by simp
  have "take_bit (Suc n) B = 2 ^ n + take_bit n B"
    using b by (simp add: take_bit_Suc_from_most)
  then have tb: "2 ^ n \<le> take_bit (Suc n) B" by simp
  have "A = push_bit (Suc n) (drop_bit (Suc n) A) + take_bit (Suc n) A"
    by (rule bits_ident [symmetric])
  moreover have "B = push_bit (Suc n) (drop_bit (Suc n) A) + take_bit (Suc n) B"
    unfolding d by (rule bits_ident [symmetric])
  ultimately show ?thesis using ta tb by linarith
qed

lemma word_less_top_diff:
  fixes a b :: "'a::len word"
  assumes eq: "\<And>m. n < m \<Longrightarrow> bit a m = bit b m" and a: "\<not> bit a n" and b: "bit b n"
  shows "a < b"
proof -
  have n: "n < LENGTH('a)" using b by (rule bit_imp_le_length)
  have "unat a < unat b"
  proof (rule nat_less_top_diff [of n])
    show "bit (unat a) m = bit (unat b) m" if "n < m" for m
      using eq [OF that] by (simp add: bit_unsigned_iff)
    show "\<not> bit (unat a) n" using a by (simp add: bit_unsigned_iff)
    show "bit (unat b) n" using b n by (simp add: bit_unsigned_iff)
  qed
  then show ?thesis by (simp add: word_less_nat_alt)
qed

lemma word_neq_top_diff:
  fixes a b :: "'a::len word"
  assumes "a \<noteq> b"
  obtains n where "bit a n \<noteq> bit b n" and "\<And>m. n < m \<Longrightarrow> bit a m = bit b m"
proof -
  let ?x = "a XOR b"
  let ?n = "LENGTH('a) - 1 - count_leading_zeros ?x"
  from assms obtain i where "bit a i \<noteq> bit b i" by (auto simp: bit_eq_iff)
  then have "bit ?x i" by (simp add: bit_xor_iff)
  then have x: "?x \<noteq> 0" by auto
  have "bit ?x ?n" using x by (rule count_leading_zeros_top_bit)
  then have 1: "bit a ?n \<noteq> bit b ?n" by (simp add: bit_xor_iff)
  have 2: "bit a m = bit b m" if "?n < m" for m
  proof -
    have "LENGTH('a) - count_leading_zeros ?x \<le> m"
      using that count_leading_zeros_less [OF x] by arith
    then have "\<not> bit ?x m" by (rule count_leading_zeros_above)
    then show ?thesis by (simp add: bit_xor_iff)
  qed
  from 1 2 show thesis by (rule that)
qed

lemma word_less_obtains_top_diff:
  fixes a b :: "'a::len word"
  assumes "a < b"
  obtains n where "\<not> bit a n" and "bit b n" and "\<And>m. n < m \<Longrightarrow> bit a m = bit b m"
proof -
  from assms have "a \<noteq> b" by simp
  then obtain n where n: "bit a n \<noteq> bit b n" and eq: "\<And>m. n < m \<Longrightarrow> bit a m = bit b m"
    using word_neq_top_diff [of a b] by blast
  have "\<not> (bit a n \<and> \<not> bit b n)"
  proof
    assume "bit a n \<and> \<not> bit b n"
    then have "b < a" using eq by (intro word_less_top_diff [of n]) auto
    with assms show False by simp
  qed
  with n have "\<not> bit a n" "bit b n" by auto
  then show thesis using eq by (rule that)
qed

lemma word_le_bit_subset:
  fixes a b :: "'a::len word"
  assumes "\<And>n. bit a n \<Longrightarrow> bit b n"
  shows "a \<le> b"
proof -
  have "b = a OR b" by (rule bit_eqI) (use assms in \<open>auto simp: bit_or_iff\<close>)
  then show ?thesis using le_word_or2 [of a b] by simp
qed

section \<open>The lowest set bit\<close>

lemma odd_and_minus_self:
  fixes m :: "'a::len word"
  assumes "odd m"
  shows "m AND - m = 1"
proof (rule bit_eqI)
  fix n
  have "bit m n = (bit (m - 1) n \<or> n = 0)" using assms by (rule odd_bit_iff_bit_pred)
  moreover have "bit m 0" using assms by (simp add: bit_0)
  moreover have "\<not> bit (m - 1) 0" using assms by (simp add: bit_0)
  ultimately show "bit (m AND - m) n = bit (1 :: 'a word) n"
    by (auto simp: bit_and_iff bit_minus_iff bit_1_iff dest: bit_imp_possible_bit)
qed

lemma lowest_set_bit:
  fixes t :: "'a::len word"
  assumes "t \<noteq> 0"
  obtains q where "bit t q" and "\<And>m. m < q \<Longrightarrow> \<not> bit t m" and "t AND - t = 2 ^ q"
proof -
  from assms obtain i where "bit t i" by (auto simp: bit_eq_iff)
  define q where "q = (LEAST i. bit t i)"
  have q: "bit t q" unfolding q_def using \<open>bit t i\<close> by (rule LeastI)
  have low: "\<not> bit t m" if "m < q" for m
    using that not_less_Least unfolding q_def by blast
  have "take_bit q t = 0"
    by (rule bit_eqI) (simp add: bit_take_bit_iff low)
  then have t: "t = push_bit q (drop_bit q t)"
    using bits_ident [of q t] by simp
  have "odd (drop_bit q t)" using q by (simp add: bit_iff_odd_drop_bit)
  then have "drop_bit q t AND - drop_bit q t = 1" by (rule odd_and_minus_self)
  then have "push_bit q (drop_bit q t) AND - push_bit q (drop_bit q t) = push_bit q 1"
    by (simp flip: push_bit_and push_bit_minus)
  with t have "t AND - t = 2 ^ q" by (simp add: push_bit_of_1)
  with q low show thesis by (rule that)
qed

section \<open>Rounding up to an alignment\<close>

lemma align_up_bit_iff:
  fixes lo :: "'a::len word"
  assumes "\<not> bit lo p" and "p < LENGTH('a)"
  shows "bit ((lo AND - (2 ^ p)) + 2 ^ p) n \<longleftrightarrow> (p < n \<and> bit lo n) \<or> n = p"
proof -
  have dis: "\<not> bit (lo AND - (2 ^ p)) m \<or> \<not> bit (2 ^ p :: 'a word) m" for m
    using assms by (auto simp: bit_and_iff bit_exp_iff)
  have "bit ((lo AND - (2 ^ p)) + 2 ^ p) n = (bit (lo AND - (2 ^ p)) n \<or> bit (2 ^ p :: 'a word) n)"
    using dis by (rule bit_disjunctive_add_iff)
  also have "\<dots> \<longleftrightarrow> (p < n \<and> bit lo n) \<or> n = p"
    using assms by (auto simp: bit_and_iff bit_exp_iff bit_minus_exp_iff dest: bit_imp_possible_bit)
  finally show ?thesis .
qed

section \<open>The pivot of \<open>adjust_lo\<close>\<close>

lemma is_satisfied_by_iff:
  "is_satisfied_by bits v \<longleftrightarrow> (\<forall>n. satisfied_at bits v n)"
proof
  assume s: "is_satisfied_by bits v"
  show "\<forall>n. satisfied_at bits v n"
  proof
    fix n
    from s have "\<not> bit (v AND k_zeros bits) n" "\<not> bit (NOT v AND k_ones bits) n"
      by (simp_all add: is_satisfied_by_def)
    then show "satisfied_at bits v n"
      by (auto simp: satisfied_at_def bit_and_iff bit_not_iff dest: bit_imp_possible_bit)
  qed
next
  assume a: "\<forall>n. satisfied_at bits v n"
  have "v AND k_zeros bits = 0"
    by (rule bit_eqI) (use a in \<open>auto simp: satisfied_at_def bit_and_iff\<close>)
  moreover have "NOT v AND k_ones bits = 0"
    by (rule bit_eqI) (use a in \<open>auto simp: satisfied_at_def bit_and_iff bit_not_iff\<close>)
  ultimately show "is_satisfied_by bits v" by (simp add: is_satisfied_by_def)
qed

lemma consistent_iff:
  "consistent bits \<longleftrightarrow> (\<forall>n. \<not> (bit (k_zeros bits) n \<and> bit (k_ones bits) n))"
  by (auto simp: consistent_def bit_eq_iff bit_and_iff dest: bit_imp_le_length)

lemma round_up_at_bit_iff:
  assumes "pivot bits lo p"
  shows "bit (round_up_at lo bits p) n \<longleftrightarrow> (p < n \<and> bit lo n) \<or> n = p \<or> (n < p \<and> bit (k_ones bits) n)"
proof -
  from assms have p: "p < LENGTH('a)" "\<not> bit lo p" and above: "\<And>m. p < m \<Longrightarrow> satisfied_at bits lo m"
    by (auto simp: pivot_def)
  have "bit (round_up_at lo bits p) n \<longleftrightarrow> (p < n \<and> bit lo n) \<or> n = p \<or> bit (k_ones bits) n"
    unfolding round_up_at_def bit_or_iff align_up_bit_iff [OF p(2) p(1)] by auto
  moreover have "bit (k_ones bits) n \<Longrightarrow> p < n \<Longrightarrow> bit lo n"
    using above [of n] by (auto simp: satisfied_at_def)
  ultimately show ?thesis by (cases n p rule: linorder_cases) auto
qed

lemma round_up_at_greater:
  assumes "pivot bits lo p"
  shows "lo < round_up_at lo bits p"
proof (rule word_less_top_diff [of p])
  show "bit lo m = bit (round_up_at lo bits p) m" if "p < m" for m
    using that by (simp add: round_up_at_bit_iff [OF assms])
  show "\<not> bit lo p" using assms by (simp add: pivot_def)
  show "bit (round_up_at lo bits p) p" by (simp add: round_up_at_bit_iff [OF assms])
qed

lemma round_up_at_satisfied:
  assumes "consistent bits" and "pivot bits lo p"
  shows "is_satisfied_by bits (round_up_at lo bits p)"
  unfolding is_satisfied_by_iff
proof
  fix n
  from assms(2) have zp: "\<not> bit (k_zeros bits) p"
    and above: "\<And>m. p < m \<Longrightarrow> satisfied_at bits lo m"
    by (auto simp: pivot_def)
  from assms(1) have c: "\<not> (bit (k_zeros bits) n \<and> bit (k_ones bits) n)"
    by (simp add: consistent_iff)
  show "satisfied_at bits (round_up_at lo bits p) n"
  proof (cases n p rule: linorder_cases)
    case less
    then show ?thesis using c by (auto simp: satisfied_at_def round_up_at_bit_iff [OF assms(2)])
  next
    case equal
    then show ?thesis using c zp by (auto simp: satisfied_at_def round_up_at_bit_iff [OF assms(2)])
  next
    case greater
    then show ?thesis using above [of n]
      by (auto simp: satisfied_at_def round_up_at_bit_iff [OF assms(2)])
  qed
qed

lemma pivot_of_greater:
  assumes "lo < v" and "is_satisfied_by bits v"
  obtains j where "pivot bits lo j" and "bit v j" and "\<And>m. j < m \<Longrightarrow> bit lo m = bit v m"
proof -
  obtain j where j: "\<not> bit lo j" "bit v j"
    and eq: "\<And>m. j < m \<Longrightarrow> bit lo m = bit v m"
    using word_less_obtains_top_diff [OF assms(1)] by blast
  from assms(2) have s: "\<And>n. satisfied_at bits v n" by (simp add: is_satisfied_by_iff)
  have "j < LENGTH('a)" using j(2) by (rule bit_imp_le_length)
  moreover have "\<not> bit (k_zeros bits) j" using s [of j] j(2) by (simp add: satisfied_at_def)
  moreover have "satisfied_at bits lo m" if "j < m" for m
    using s [of m] eq [OF that] by (simp add: satisfied_at_def)
  ultimately have "pivot bits lo j" using j(1) by (simp add: pivot_def)
  then show thesis using j(2) eq by (rule that)
qed

lemma round_up_at_least:
  assumes p: "pivot bits lo p" and least: "\<And>p'. p' < p \<Longrightarrow> \<not> pivot bits lo p'"
    and v: "lo < v" "is_satisfied_by bits v"
  shows "round_up_at lo bits p \<le> v"
proof -
  obtain j where j: "pivot bits lo j" "bit v j"
    and eq: "\<And>m. j < m \<Longrightarrow> bit lo m = bit v m"
    using pivot_of_greater [OF v] by blast
  from j(1) least have "p \<le> j" by (meson not_le_imp_less)
  then consider "p < j" | "j = p" by (auto simp: order_le_less)
  then show ?thesis
  proof cases
    case 1
    have "round_up_at lo bits p < v"
    proof (rule word_less_top_diff [of j])
      show "bit (round_up_at lo bits p) m = bit v m" if "j < m" for m
        using that 1 eq [OF that] by (simp add: round_up_at_bit_iff [OF p])
      show "\<not> bit (round_up_at lo bits p) j"
        using 1 j(1) by (simp add: round_up_at_bit_iff [OF p] pivot_def)
      show "bit v j" by (rule j(2))
    qed
    then show ?thesis by simp
  next
    case 2
    from v(2) have s: "\<And>n. satisfied_at bits v n" by (simp add: is_satisfied_by_iff)
    show ?thesis
    proof (rule word_le_bit_subset)
      fix n
      assume "bit (round_up_at lo bits p) n"
      then consider "p < n" "bit lo n" | "n = p" | "n < p" "bit (k_ones bits) n"
        by (auto simp: round_up_at_bit_iff [OF p])
      then show "bit v n"
      proof cases
        case 1
        then show ?thesis using eq [of n] 2 by simp
      next
        case 2
        then show ?thesis using j(2) \<open>j = p\<close> by simp
      next
        case 3
        then show ?thesis using s [of n] by (auto simp: satisfied_at_def)
      qed
    qed
  qed
qed

lemma no_pivot_infeasible:
  assumes "\<not> is_satisfied_by bits lo" and "\<And>p. \<not> pivot bits lo p" and "lo \<le> v"
  shows "\<not> is_satisfied_by bits v"
proof
  assume s: "is_satisfied_by bits v"
  with assms(1) have "lo \<noteq> v" by auto
  with assms(3) have "lo < v" by simp
  then obtain j where "pivot bits lo j" using s pivot_of_greater by blast
  with assms(2) show False by simp
qed

section \<open>What \<open>adjust_lo\<close> computes\<close>

lemma violation_order:
  fixes zv ov :: "'a::len word"
  assumes dis: "zv AND ov = 0" and less: "zv < ov"
  defines "p \<equiv> LENGTH('a) - 1 - count_leading_zeros ov"
  shows "bit ov p" and "\<And>m. p < m \<Longrightarrow> \<not> bit ov m" and "\<And>m. p \<le> m \<Longrightarrow> \<not> bit zv m"
proof -
  from less have nz: "ov \<noteq> 0" by auto
  show top: "bit ov p" unfolding p_def using nz by (rule count_leading_zeros_top_bit)
  show above: "\<not> bit ov m" if "p < m" for m
  proof (rule count_leading_zeros_above)
    show "LENGTH('a) - count_leading_zeros ov \<le> m"
      using that count_leading_zeros_less [OF nz] unfolding p_def by arith
  qed
  obtain n where n: "\<not> bit zv n" "bit ov n" and eq: "\<And>m. n < m \<Longrightarrow> bit zv m = bit ov m"
    using word_less_obtains_top_diff [OF less] by blast
  have d: "\<not> (bit zv m \<and> bit ov m)" for m
    using arg_cong [OF dis, of "\<lambda>w. bit w m"] by (simp add: bit_and_iff)
  have "\<not> p < n" using above [of n] n(2) by auto
  moreover have "\<not> n < p" using eq [of p] top d [of p] by auto
  ultimately have "n = p" by simp
  show "\<not> bit zv m" if "p \<le> m" for m
  proof (cases "m = p")
    case True
    then show ?thesis using n(1) \<open>n = p\<close> by simp
  next
    case False
    with that have "p < m" by simp
    then show ?thesis using eq [of m] above [of m] \<open>n = p\<close> by simp
  qed
qed

lemma violations_disjoint:
  "(lo AND z) AND (NOT lo AND o') = (0 :: 'a::len word)"
  by (rule bit_eqI) (auto simp: bit_and_iff bit_not_iff)

lemma violations_equal_zero:
  fixes lo :: "'a::len word"
  assumes "lo AND z = NOT lo AND o'"
  shows "lo AND z = 0" and "NOT lo AND o' = 0"
proof -
  have "lo AND z = (lo AND z) AND (NOT lo AND o')" using assms by simp
  then show "lo AND z = 0" by (simp only: violations_disjoint)
  with assms show "NOT lo AND o' = 0" by simp
qed

lemma satisfied_at_violations:
  "satisfied_at bits lo m \<longleftrightarrow>
     \<not> bit (lo AND k_zeros bits) m \<and> \<not> bit (NOT lo AND k_ones bits) m"
  by (auto simp: satisfied_at_def bit_and_iff bit_not_iff dest: bit_imp_possible_bit)

lemma adjust_lo_satisfied:
  assumes "is_satisfied_by bits lo"
  shows "adjust_lo lo bits = Some lo"
  using assms by (simp add: adjust_lo_def is_satisfied_by_def)

lemma adjust_lo_unchanged_iff:
  "lo AND k_zeros bits = NOT lo AND k_ones bits \<longleftrightarrow> is_satisfied_by bits lo"
  using violations_equal_zero [of lo "k_zeros bits" "k_ones bits"]
  by (auto simp: is_satisfied_by_def)

text \<open>First violation is a missing one.\<close>

lemma adjust_lo_one_violation:
  fixes lo :: "'a::len word"
  assumes c: "consistent bits"
    and less: "lo AND k_zeros bits < NOT lo AND k_ones bits"
  obtains p where "pivot bits lo p" and "\<And>p'. p' < p \<Longrightarrow> \<not> pivot bits lo p'"
    and "adjust_lo lo bits = Some (round_up_at lo bits p)"
proof -
  let ?zv = "lo AND k_zeros bits" and ?ov = "NOT lo AND k_ones bits"
  define p where "p = LENGTH('a) - 1 - count_leading_zeros ?ov"
  note vo = violation_order [OF violations_disjoint less, folded p_def]
  have pW: "p < LENGTH('a)" using vo(1) by (rule bit_imp_le_length)
  have lo_p: "\<not> bit lo p" and ones_p: "bit (k_ones bits) p"
    using vo(1) by (auto simp: bit_and_iff bit_not_iff)
  have z_p: "\<not> bit (k_zeros bits) p"
    using c ones_p by (auto simp: consistent_iff)
  have "satisfied_at bits lo m" if "p < m" for m
    using vo(2) [OF that] vo(3) [of m] that by (simp add: satisfied_at_violations)
  then have piv: "pivot bits lo p" using pW lo_p z_p by (simp add: pivot_def)
  have least: "\<not> pivot bits lo p'" if "p' < p" for p'
  proof
    assume "pivot bits lo p'"
    then have "satisfied_at bits lo p" using that by (simp add: pivot_def)
    then show False using vo(1) by (simp add: satisfied_at_violations)
  qed
  have ne: "?zv \<noteq> ?ov" using less by simp
  have "adjust_lo lo bits = Some (round_up_at lo bits p)"
    using ne less pW
    by (simp add: adjust_lo_def Let_def shift_left_def round_up_at_def p_def)
  with piv least show thesis by (rule that)
qed

text \<open>First violation is a one where a zero is demanded.\<close>

lemma adjust_lo_zero_violation:
  fixes lo :: "'a::len word"
  assumes c: "consistent bits"
    and less: "NOT lo AND k_ones bits < lo AND k_zeros bits"
    and r: "adjust_lo lo bits = Some r"
  shows "(\<exists>p. pivot bits lo p \<and> (\<forall>p'<p. \<not> pivot bits lo p') \<and> r = round_up_at lo bits p)
       \<or> ((\<forall>p. \<not> pivot bits lo p) \<and> r = k_ones bits)"
proof -
  let ?zv = "lo AND k_zeros bits" and ?ov = "NOT lo AND k_ones bits"
  define t where "t = LENGTH('a) - 1 - count_leading_zeros ?zv"
  have dis: "?ov AND ?zv = 0" using violations_disjoint [of lo "k_zeros bits" "k_ones bits"]
    by (simp add: ac_simps)
  note vo = violation_order [OF dis less, folded t_def]
  have nz: "?zv \<noteq> 0" using less by auto
  have tW: "t < LENGTH('a)" using vo(1) by (rule bit_imp_le_length)
  have fv: "LENGTH('a) - count_leading_zeros ?zv = Suc t"
    using count_leading_zeros_less [OF nz] unfolding t_def by arith
  have ne: "?zv \<noteq> ?ov" and nl: "\<not> ?zv < ?ov" using less by auto
  define tmp where "tmp = NOT (lo OR k_zeros bits) AND push_bit (Suc t) (- 1)"
  from r have St: "Suc t < LENGTH('a)"
    using ne nl by (auto simp: adjust_lo_def Let_def shift_left_def fv split: if_splits)
  have r_eq: "r = ((lo AND - (tmp AND - tmp)) + (tmp AND - tmp)) OR k_ones bits"
    using r ne nl St by (simp add: adjust_lo_def Let_def shift_left_def fv tmp_def)
  have tmp_bit: "bit tmp m \<longleftrightarrow> t < m \<and> m < LENGTH('a) \<and> \<not> bit lo m \<and> \<not> bit (k_zeros bits) m" for m
    unfolding tmp_def
    by (auto simp: bit_and_iff bit_not_iff bit_or_iff bit_push_bit_iff bit_mask_iff)
  have sat_above: "satisfied_at bits lo m" if "t < m" for m
    using vo(2) [OF that] vo(3) [of m] that by (simp add: satisfied_at_violations)
  have low_not_pivot: "\<not> pivot bits lo p'" if "p' \<le> t" for p'
  proof
    assume pv: "pivot bits lo p'"
    show False
    proof (cases "p' = t")
      case True
      then show ?thesis using pv vo(1) by (simp add: pivot_def bit_and_iff)
    next
      case False
      with that have "p' < t" by simp
      with pv have "satisfied_at bits lo t" by (simp add: pivot_def)
      then show ?thesis using vo(1) by (simp add: satisfied_at_violations)
    qed
  qed
  have pivot_tmp: "pivot bits lo m \<longleftrightarrow> bit tmp m" for m
  proof
    assume "pivot bits lo m"
    moreover from this have "t < m" using low_not_pivot [of m] by (meson not_le_imp_less)
    ultimately show "bit tmp m" by (auto simp: tmp_bit pivot_def)
  next
    assume "bit tmp m"
    then show "pivot bits lo m" using sat_above by (auto simp: tmp_bit pivot_def)
  qed
  show ?thesis
  proof (cases "tmp = 0")
    case True
    then have "\<forall>p. \<not> pivot bits lo p" by (simp add: pivot_tmp)
    moreover have "r = k_ones bits" using r_eq True by simp
    ultimately show ?thesis by simp
  next
    case False
    then obtain q where q: "bit tmp q" "\<And>m. m < q \<Longrightarrow> \<not> bit tmp m" "tmp AND - tmp = 2 ^ q"
      using lowest_set_bit [of tmp] by blast
    have "pivot bits lo q" using q(1) by (simp add: pivot_tmp)
    moreover have "\<forall>p'<q. \<not> pivot bits lo p'" using q(2) by (simp add: pivot_tmp)
    moreover have "r = round_up_at lo bits q" using r_eq q(3) by (simp add: round_up_at_def)
    ultimately show ?thesis by blast
  qed
qed

lemma adjust_lo_None_iff:
  fixes lo :: "'a::len word"
  shows "adjust_lo lo bits = None \<longleftrightarrow>
           bit lo (LENGTH('a) - 1) \<and> bit (k_zeros bits) (LENGTH('a) - 1)"
proof -
  let ?zv = "lo AND k_zeros bits" and ?ov = "NOT lo AND k_ones bits"
  let ?W = "LENGTH('a)"
  consider "?zv = ?ov" | "?zv < ?ov" | "?ov < ?zv" by (metis linorder_neqE)
  then show ?thesis
  proof cases
    case 1
    then have "?zv = 0" by (rule violations_equal_zero)
    then have "\<not> bit ?zv (?W - 1)" by simp
    moreover have "adjust_lo lo bits = Some lo" using 1 by (simp add: adjust_lo_def)
    ultimately show ?thesis by (simp add: bit_and_iff)
  next
    case 2
    have "?W - 1 - count_leading_zeros ?ov < ?W" by simp
    then have "adjust_lo lo bits \<noteq> None"
      using 2 by (simp add: adjust_lo_def Let_def shift_left_def)
    moreover have "\<not> bit ?zv (?W - 1)"
    proof
      assume b: "bit ?zv (?W - 1)"
      have "\<not> bit ?ov (?W - 1)" using b by (simp add: bit_and_iff bit_not_iff)
      then have "?ov < ?zv"
        using b by (intro word_less_top_diff [of "?W - 1"]) (auto dest: bit_imp_le_length)
      with 2 show False by simp
    qed
    ultimately show ?thesis by (auto simp: bit_and_iff)
  next
    case 3
    then have nz: "?zv \<noteq> 0" by auto
    have ne: "?zv \<noteq> ?ov" and nl: "\<not> ?zv < ?ov" using 3 by auto
    have "LENGTH('a) - count_leading_zeros ?zv < LENGTH('a) \<longleftrightarrow> count_leading_zeros ?zv \<noteq> 0"
      by auto
    then have "adjust_lo lo bits = None \<longleftrightarrow> count_leading_zeros ?zv = 0"
      using ne nl by (auto simp: adjust_lo_def Let_def shift_left_def)
    also have "\<dots> \<longleftrightarrow> bit ?zv (?W - 1)"
    proof
      assume "count_leading_zeros ?zv = 0"
      then show "bit ?zv (?W - 1)" using count_leading_zeros_top_bit [OF nz] by simp
    next
      assume b: "bit ?zv (?W - 1)"
      show "count_leading_zeros ?zv = 0"
      proof (rule ccontr)
        assume "count_leading_zeros ?zv \<noteq> 0"
        then have "?W - count_leading_zeros ?zv \<le> ?W - 1" by arith
        then have "\<not> bit ?zv (?W - 1)" by (rule count_leading_zeros_above)
        with b show False by simp
      qed
    qed
    finally show ?thesis by (simp add: bit_and_iff)
  qed
qed

lemma ones_satisfied:
  assumes "consistent bits"
  shows "is_satisfied_by bits (k_ones bits)"
  using assms by (simp add: is_satisfied_by_def consistent_def and.commute)

lemma adjust_lo_cases:
  fixes lo :: "'a::len word"
  assumes c: "consistent bits" and r: "adjust_lo lo bits = Some r"
  obtains (unchanged) "is_satisfied_by bits lo" and "r = lo"
  | (rounded) p where "\<not> is_satisfied_by bits lo" and "pivot bits lo p"
      and "\<And>p'. p' < p \<Longrightarrow> \<not> pivot bits lo p'" and "r = round_up_at lo bits p"
  | (overflow) "\<not> is_satisfied_by bits lo" and "\<And>p. \<not> pivot bits lo p" and "r = k_ones bits"
proof -
  let ?zv = "lo AND k_zeros bits" and ?ov = "NOT lo AND k_ones bits"
  consider "?zv = ?ov" | "?zv < ?ov" | "?ov < ?zv" by (metis linorder_neqE)
  then show thesis
  proof cases
    case 1
    then have s: "is_satisfied_by bits lo" by (simp add: adjust_lo_unchanged_iff)
    then have "r = lo" using r by (simp add: adjust_lo_satisfied)
    with s show thesis by (rule unchanged)
  next
    case 2
    then have ns: "\<not> is_satisfied_by bits lo" by (auto simp flip: adjust_lo_unchanged_iff)
    obtain p where p: "pivot bits lo p" "\<And>p'. p' < p \<Longrightarrow> \<not> pivot bits lo p'"
      "adjust_lo lo bits = Some (round_up_at lo bits p)"
      using adjust_lo_one_violation [OF c 2] by blast
    from p(3) r have "r = round_up_at lo bits p" by simp
    with ns p(1,2) show thesis by (rule rounded)
  next
    case 3
    then have ns: "\<not> is_satisfied_by bits lo" by (auto simp flip: adjust_lo_unchanged_iff)
    from adjust_lo_zero_violation [OF c 3 r] show thesis
    proof (elim disjE exE conjE)
      fix p
      assume "pivot bits lo p" "\<forall>p'<p. \<not> pivot bits lo p'" "r = round_up_at lo bits p"
      with ns show thesis by (intro rounded [of p]) auto
    next
      assume "\<forall>p. \<not> pivot bits lo p" "r = k_ones bits"
      with ns show thesis by (intro overflow) auto
    qed
  qed
qed

text \<open>
  The contract of \<open>adjust_lo\<close> wherever its shifts are defined: the result satisfies the
  bits; if some value from \<open>lo\<close> on satisfies the bits, the result is the least such value;
  otherwise the result is below \<open>lo\<close>.
\<close>

lemma adjust_lo_result_satisfied:
  assumes "consistent bits" and "adjust_lo lo bits = Some r"
  shows "is_satisfied_by bits r"
  using assms
proof (cases rule: adjust_lo_cases)
  case unchanged
  then show ?thesis by simp
next
  case (rounded p)
  then show ?thesis using round_up_at_satisfied [OF assms(1)] by simp
next
  case overflow
  then show ?thesis using ones_satisfied [OF assms(1)] by simp
qed

lemma adjust_lo_least:
  assumes c: "consistent bits" and r: "adjust_lo lo bits = Some r"
    and v: "lo \<le> v" "is_satisfied_by bits v"
  shows "lo \<le> r \<and> r \<le> v"
  using c r
proof (cases rule: adjust_lo_cases)
  case unchanged
  then show ?thesis using v by simp
next
  case (rounded p)
  from rounded(1) v have "lo < v" by (auto simp: order_less_le)
  then have "r \<le> v" unfolding rounded(4) using rounded(2,3) v(2) by (intro round_up_at_least)
  moreover have "lo < r" unfolding rounded(4) using rounded(2) by (rule round_up_at_greater)
  ultimately show ?thesis by simp
next
  case overflow
  then show ?thesis using no_pivot_infeasible [of bits lo v] v by blast
qed


lemma adjust_lo_assert_one_violation:
  assumes "consistent bits" and "lo AND k_zeros bits < NOT lo AND k_ones bits"
  shows "\<exists>new_lo. adjust_lo lo bits = Some new_lo \<and> lo < new_lo"
  using adjust_lo_one_violation [OF assms] round_up_at_greater by metis

lemma adjust_lo_assert_zero_violation:
  assumes "consistent bits" and "NOT lo AND k_ones bits < lo AND k_zeros bits"
    and "adjust_lo lo bits = Some new_lo"
  shows "lo < new_lo \<or> new_lo = k_ones bits"
  using adjust_lo_zero_violation [OF assms] round_up_at_greater by metis

lemma top_bit_of_le:
  fixes a b :: "'a::len word"
  assumes "a \<le> b" and "bit a (LENGTH('a) - 1)"
  shows "bit b (LENGTH('a) - 1)"
proof (rule ccontr)
  assume "\<not> bit b (LENGTH('a) - 1)"
  then have "b < a"
    using assms(2) by (intro word_less_top_diff [of "LENGTH('a) - 1"]) (auto dest: bit_imp_le_length)
  with assms(1) show False by simp
qed

lemma satisfied_by_swapped:
  "is_satisfied_by \<lparr>k_zeros = k_ones bits, k_ones = k_zeros bits\<rparr> f \<longleftrightarrow> is_satisfied_by bits (NOT f)"
  by (auto simp: is_satisfied_by_def)

lemma consistent_swapped:
  "consistent \<lparr>k_zeros = k_ones bits, k_ones = k_zeros bits\<rparr> \<longleftrightarrow> consistent bits"
  by (simp add: consistent_def and.commute)

section \<open>The rounds of the loop\<close>

lemma adjust_bits_from_bounds_result:
  "a_result (adjust_bits_from_bounds bits bounds) =
     \<lparr>k_zeros = k_zeros bits OR (match_mask bounds AND NOT (r_lo bounds)),
      k_ones = k_ones bits OR (match_mask bounds AND r_lo bounds)\<rparr>"
  by (simp add: adjust_bits_from_bounds_def match_mask_def Let_def)

lemma match_mask_common:
  assumes "bit (match_mask bounds) n"
  shows "bit (r_lo bounds) n = bit (r_hi bounds) n"
proof (cases "r_lo bounds XOR r_hi bounds = 0")
  case True
  then have "bit (r_lo bounds XOR r_hi bounds) n = False" by simp
  then show ?thesis by (simp add: bit_xor_iff)
next
  case False
  let ?x = "r_lo bounds XOR r_hi bounds"
  from assms False have "n < LENGTH('a)" "LENGTH('a) - count_leading_zeros ?x \<le> n"
    by (auto simp: match_mask_def bit_not_iff drop_bit_of_minus_1_eq bit_mask_iff)
  then have "\<not> bit ?x n" using count_leading_zeros_above by blast
  then show ?thesis by (simp add: bit_xor_iff)
qed

lemma match_mask_top_bit:
  fixes bounds :: "'a::len word RangeInt"
  assumes "bit (r_lo bounds) (LENGTH('a) - 1) = bit (r_hi bounds) (LENGTH('a) - 1)"
  shows "bit (match_mask bounds) (LENGTH('a) - 1)"
proof (cases "r_lo bounds XOR r_hi bounds = 0")
  case True
  then show ?thesis by (simp add: match_mask_def)
next
  case False
  let ?x = "r_lo bounds XOR r_hi bounds"
  have "\<not> bit ?x (LENGTH('a) - 1)" using assms by (simp add: bit_xor_iff)
  have "count_leading_zeros ?x \<noteq> 0"
  proof
    assume "count_leading_zeros ?x = 0"
    with count_leading_zeros_top_bit [OF False] have "bit ?x (LENGTH('a) - 1)" by simp
    with \<open>\<not> bit ?x (LENGTH('a) - 1)\<close> show False by simp
  qed
  moreover have "0 < LENGTH('a)" by simp
  ultimately have "\<not> LENGTH('a) - 1 < LENGTH('a) - count_leading_zeros ?x" by arith
  then show ?thesis
    using False by (simp add: match_mask_def bit_not_iff drop_bit_of_minus_1_eq bit_mask_iff)
qed

lemma adjust_bits_from_bounds_keeps_satisfied:
  assumes "is_satisfied_by bits (r_lo bounds)" and "is_satisfied_by bits (r_hi bounds)"
  shows "is_satisfied_by (a_result (adjust_bits_from_bounds bits bounds)) (r_lo bounds)"
    and "is_satisfied_by (a_result (adjust_bits_from_bounds bits bounds)) (r_hi bounds)"
proof -
  from assms have a: "\<And>n. satisfied_at bits (r_lo bounds) n" "\<And>n. satisfied_at bits (r_hi bounds) n"
    by (simp_all add: is_satisfied_by_iff)
  show "is_satisfied_by (a_result (adjust_bits_from_bounds bits bounds)) (r_lo bounds)"
    unfolding is_satisfied_by_iff adjust_bits_from_bounds_result
  proof
    fix n
    show "satisfied_at \<lparr>k_zeros = k_zeros bits OR (match_mask bounds AND NOT (r_lo bounds)),
             k_ones = k_ones bits OR (match_mask bounds AND r_lo bounds)\<rparr> (r_lo bounds) n"
      using a(1) [of n] by (auto simp: satisfied_at_def bit_or_iff bit_and_iff bit_not_iff)
  qed
  show "is_satisfied_by (a_result (adjust_bits_from_bounds bits bounds)) (r_hi bounds)"
    unfolding is_satisfied_by_iff adjust_bits_from_bounds_result
  proof
    fix n
    show "satisfied_at \<lparr>k_zeros = k_zeros bits OR (match_mask bounds AND NOT (r_lo bounds)),
             k_ones = k_ones bits OR (match_mask bounds AND r_lo bounds)\<rparr> (r_hi bounds) n"
      using a(2) [of n] match_mask_common [of bounds n]
      by (auto simp: satisfied_at_def bit_or_iff bit_and_iff bit_not_iff)
  qed
qed

lemma adjust_bounds_from_bits_fixed:
  assumes "is_satisfied_by bits (r_lo bounds)" and "is_satisfied_by bits (r_hi bounds)"
    and "r_lo bounds \<le> r_hi bounds"
  shows "adjust_bounds_from_bits bounds bits =
           Some \<lparr>a_progress = False, a_is_result_consistent = True, a_result = bounds\<rparr>"
proof -
  have "adjust_lo (r_lo bounds) bits = Some (r_lo bounds)"
    using assms(1) by (rule adjust_lo_satisfied)
  moreover have "is_satisfied_by \<lparr>k_zeros = k_ones bits, k_ones = k_zeros bits\<rparr> (NOT (r_hi bounds))"
    using assms(2) by (simp add: satisfied_by_swapped)
  then have "adjust_lo (NOT (r_hi bounds)) \<lparr>k_zeros = k_ones bits, k_ones = k_zeros bits\<rparr>
      = Some (NOT (r_hi bounds))"
    by (rule adjust_lo_satisfied)
  ultimately show ?thesis
    using assms(3) by (simp add: adjust_bounds_from_bits_def Let_def)
qed

lemma adjust_bounds_from_bits_consistentE:
  assumes "adjust_bounds_from_bits bounds bits = Some nb" and "a_is_result_consistent nb"
  obtains new_lo flipped where "adjust_lo (r_lo bounds) bits = Some new_lo"
    and "adjust_lo (NOT (r_hi bounds)) \<lparr>k_zeros = k_ones bits, k_ones = k_zeros bits\<rparr> = Some flipped"
    and "a_result nb = \<lparr>r_lo = new_lo, r_hi = NOT flipped\<rparr>"
    and "a_progress nb \<longleftrightarrow> new_lo \<noteq> r_lo bounds \<or> NOT flipped \<noteq> r_hi bounds"
    and "r_lo bounds \<le> new_lo" and "new_lo \<le> NOT flipped" and "NOT flipped \<le> r_hi bounds"
  using assms
  by (auto simp: adjust_bounds_from_bits_def make_empty_bounds_def Let_def
           split: option.splits if_splits)

lemma adjust_bounds_from_bits_satisfied:
  assumes c: "consistent bits" and r: "adjust_bounds_from_bits bounds bits = Some nb"
    and p: "a_is_result_consistent nb"
  shows "is_satisfied_by bits (r_lo (a_result nb))" and "is_satisfied_by bits (r_hi (a_result nb))"
    and "r_lo (a_result nb) \<le> r_hi (a_result nb)"
proof -
  from r p obtain new_lo flipped where l: "adjust_lo (r_lo bounds) bits = Some new_lo"
    and h: "adjust_lo (NOT (r_hi bounds)) \<lparr>k_zeros = k_ones bits, k_ones = k_zeros bits\<rparr> = Some flipped"
    and res: "a_result nb = \<lparr>r_lo = new_lo, r_hi = NOT flipped\<rparr>"
    and le: "new_lo \<le> NOT flipped"
    by (rule adjust_bounds_from_bits_consistentE)
  show "is_satisfied_by bits (r_lo (a_result nb))"
    using adjust_lo_result_satisfied [OF c l] by (simp add: res)
  have "is_satisfied_by \<lparr>k_zeros = k_ones bits, k_ones = k_zeros bits\<rparr> flipped"
    using c h by (intro adjust_lo_result_satisfied [of _ "NOT (r_hi bounds)"]) (simp_all add: consistent_swapped)
  then show "is_satisfied_by bits (r_hi (a_result nb))"
    by (simp add: satisfied_by_swapped res)
  show "r_lo (a_result nb) \<le> r_hi (a_result nb)" using le by (simp add: res)
qed

text \<open>After one productive round the next round changes nothing: the loop runs at most twice.\<close>

lemma simple_loop_second_round:
  assumes "is_satisfied_by bits (r_lo bounds)" and "is_satisfied_by bits (r_hi bounds)"
    and "r_lo bounds \<le> r_hi bounds"
  shows "simple_loop n bounds bits =
           (Suc n, Some \<lparr>s_present = True, s_bounds = bounds, s_bits = bits\<rparr>)"
  using adjust_bounds_from_bits_fixed [OF assms] by (subst simple_loop.simps) simp

lemma simple_loop_iterations:
  assumes c: "consistent bits"
  shows "fst (simple_loop n bounds bits) \<le> n + 2"
proof (cases "adjust_bounds_from_bits bounds bits")
  case None
  then show ?thesis by (subst simple_loop.simps) simp
next
  case (Some nb)
  let ?nbits = "adjust_bits_from_bounds bits (a_result nb)"
  show ?thesis
  proof (cases "a_progress nb \<and> a_is_result_consistent nb
                \<and> a_progress ?nbits \<and> a_is_result_consistent ?nbits")
    case False
    then show ?thesis using Some by (subst simple_loop.simps) (auto simp: Let_def)
  next
    case True
    then have p: "a_is_result_consistent nb" by simp
    note s = adjust_bounds_from_bits_satisfied [OF c Some p]
    have "simple_loop (Suc n) (a_result nb) (a_result ?nbits) =
            (Suc (Suc n), Some \<lparr>s_present = True, s_bounds = a_result nb,
                                 s_bits = a_result ?nbits\<rparr>)"
      using adjust_bits_from_bounds_keeps_satisfied [OF s(1,2)] s(3)
      by (rule simple_loop_second_round)
    then show ?thesis using Some True by (subst simple_loop.simps) (simp add: Let_def)
  qed
qed

lemma adjust_bits_from_bounds_consistent:
  "a_is_result_consistent (adjust_bits_from_bounds bits bounds)
     \<longleftrightarrow> consistent (a_result (adjust_bits_from_bounds bits bounds))"
  by (simp add: adjust_bits_from_bounds_def consistent_def Let_def)

lemma simple_iterations_le_2:
  "simple_iterations bounds bits \<le> 2"
proof (cases "a_is_result_consistent (adjust_bits_from_bounds bits bounds)")
  case False
  then show ?thesis
    by (simp add: simple_iterations_def canonicalize_constraints_simple_run_def)
next
  case True
  then have "consistent (a_result (adjust_bits_from_bounds bits bounds))"
    by (simp add: adjust_bits_from_bounds_consistent)
  from simple_loop_iterations [OF this, of 0 bounds] True show ?thesis
    by (simp add: simple_iterations_def canonicalize_constraints_simple_run_def)
qed

section \<open>No undefined shift on ordered bounds\<close>

lemma adjust_lo_defined_on_refined_bits:
  fixes bounds :: "'a::len word RangeInt"
  assumes le: "r_lo bounds \<le> r_hi bounds"
    and c: "consistent (a_result (adjust_bits_from_bounds bits bounds))"
  shows "adjust_lo (r_lo bounds) (a_result (adjust_bits_from_bounds bits bounds)) \<noteq> None"
    and "adjust_lo (NOT (r_hi bounds))
           \<lparr>k_zeros = k_ones (a_result (adjust_bits_from_bounds bits bounds)),
            k_ones = k_zeros (a_result (adjust_bits_from_bounds bits bounds))\<rparr> \<noteq> None"
proof -
  let ?top = "LENGTH('a) - 1"
  let ?b = "a_result (adjust_bits_from_bounds bits bounds)"
  have z: "k_zeros ?b = k_zeros bits OR (match_mask bounds AND NOT (r_lo bounds))"
    and o: "k_ones ?b = k_ones bits OR (match_mask bounds AND r_lo bounds)"
    by (simp_all add: adjust_bits_from_bounds_result)
  have top: "?top < LENGTH('a)" by simp
  from c have dis: "\<not> (bit (k_zeros ?b) ?top \<and> bit (k_ones ?b) ?top)"
    by (simp add: consistent_iff)
  show "adjust_lo (r_lo bounds) ?b \<noteq> None"
  proof
    assume "adjust_lo (r_lo bounds) ?b = None"
    then have l: "bit (r_lo bounds) ?top" and zt: "bit (k_zeros ?b) ?top"
      by (simp_all add: adjust_lo_None_iff)
    from le l have "bit (r_hi bounds) ?top" by (rule top_bit_of_le)
    with l have "bit (match_mask bounds) ?top" by (intro match_mask_top_bit) simp
    with l have "bit (k_ones ?b) ?top" unfolding o by (simp add: bit_or_iff bit_and_iff)
    with zt dis show False by simp
  qed
  show "adjust_lo (NOT (r_hi bounds)) \<lparr>k_zeros = k_ones ?b, k_ones = k_zeros ?b\<rparr> \<noteq> None"
  proof
    assume "adjust_lo (NOT (r_hi bounds)) \<lparr>k_zeros = k_ones ?b, k_ones = k_zeros ?b\<rparr> = None"
    then have h: "\<not> bit (r_hi bounds) ?top" and ot: "bit (k_ones ?b) ?top"
      by (simp_all add: adjust_lo_None_iff bit_not_iff)
    from le h have l: "\<not> bit (r_lo bounds) ?top" using top_bit_of_le by blast
    with h have "bit (match_mask bounds) ?top" by (intro match_mask_top_bit) simp
    with l have "bit (k_zeros ?b) ?top"
      unfolding z using top by (simp add: bit_or_iff bit_and_iff bit_not_iff)
    with ot dis show False by simp
  qed
qed

lemma adjust_bounds_from_bits_defined:
  fixes bounds :: "'a::len word RangeInt"
  assumes le: "r_lo bounds \<le> r_hi bounds"
    and c: "consistent (a_result (adjust_bits_from_bounds bits bounds))"
  shows "\<exists>nb. adjust_bounds_from_bits bounds (a_result (adjust_bits_from_bounds bits bounds)) = Some nb"
  using adjust_lo_defined_on_refined_bits [OF le c]
  by (auto simp: adjust_bounds_from_bits_def Let_def split: option.splits)

lemma simple_loop_defined:
  assumes c: "consistent bits" and d: "adjust_bounds_from_bits bounds bits = Some nb"
  shows "\<exists>res. snd (simple_loop n bounds bits) = Some res"
proof -
  let ?nbits = "adjust_bits_from_bounds bits (a_result nb)"
  show ?thesis
  proof (cases "a_progress nb \<and> a_is_result_consistent nb
                \<and> a_progress ?nbits \<and> a_is_result_consistent ?nbits")
    case False
    then show ?thesis using d by (subst simple_loop.simps) (auto simp: Let_def)
  next
    case True
    then have p: "a_is_result_consistent nb" by simp
    note s = adjust_bounds_from_bits_satisfied [OF c d p]
    have "simple_loop (Suc n) (a_result nb) (a_result ?nbits) =
            (Suc (Suc n), Some \<lparr>s_present = True, s_bounds = a_result nb,
                                 s_bits = a_result ?nbits\<rparr>)"
      using adjust_bits_from_bounds_keeps_satisfied [OF s(1,2)] s(3)
      by (rule simple_loop_second_round)
    then show ?thesis using d True by (subst simple_loop.simps) (simp add: Let_def)
  qed
qed

lemma canonicalize_constraints_simple_defined:
  assumes "r_lo bounds \<le> r_hi bounds"
  shows "\<exists>res. canonicalize_constraints_simple bounds bits = Some res"
proof (cases "a_is_result_consistent (adjust_bits_from_bounds bits bounds)")
  case False
  then show ?thesis
    by (simp add: canonicalize_constraints_simple_def canonicalize_constraints_simple_run_def)
next
  case True
  then have c: "consistent (a_result (adjust_bits_from_bounds bits bounds))"
    by (simp add: adjust_bits_from_bounds_consistent)
  from adjust_bounds_from_bits_defined [OF assms c] obtain nb where
    "adjust_bounds_from_bits bounds (a_result (adjust_bits_from_bounds bits bounds)) = Some nb" ..
  from simple_loop_defined [OF c this, of 0] True show ?thesis
    by (simp add: canonicalize_constraints_simple_def canonicalize_constraints_simple_run_def)
qed

section \<open>The contract of \<open>adjust_lo\<close>\<close>



section \<open>The assertions of \<open>adjust_lo\<close>\<close>

text \<open>
  C10. For every \<open>lo\<close> and every consistent \<open>bits\<close>, the three assertions of \<open>adjust_lo\<close>
  hold whenever they are reached: (a) if the two violations are equal, both are zero, so
  \<open>lo\<close> is returned unchanged only when it satisfies the bits; (b) in the branch of a
  missing one the result exists and is strictly greater than \<open>lo\<close>; (c) in the other branch
  the result is strictly greater than \<open>lo\<close> or equals \<open>ones\<close>, except on the run that
  shifts by the width, which has no result and reaches no assertion: that is the run where
  the top bit is set in both \<open>lo\<close> and \<open>zeros\<close>.
\<close>

theorem C10_adjust_lo_assertions:
  fixes lo :: "'a::len word"
  assumes "consistent bits"
  shows "(lo AND k_zeros bits = NOT lo AND k_ones bits \<longrightarrow>
            lo AND k_zeros bits = 0 \<and> NOT lo AND k_ones bits = 0
            \<and> is_satisfied_by bits lo \<and> adjust_lo lo bits = Some lo)
       \<and> (lo AND k_zeros bits < NOT lo AND k_ones bits \<longrightarrow>
            (\<exists>new_lo. adjust_lo lo bits = Some new_lo \<and> lo < new_lo))
       \<and> (NOT lo AND k_ones bits < lo AND k_zeros bits \<longrightarrow>
            (case adjust_lo lo bits of
               Some new_lo \<Rightarrow> lo < new_lo \<or> new_lo = k_ones bits
             | None \<Rightarrow> bit lo (LENGTH('a) - 1) \<and> bit (k_zeros bits) (LENGTH('a) - 1)))"
proof (intro conjI impI)
  assume e: "lo AND k_zeros bits = NOT lo AND k_ones bits"
  show "lo AND k_zeros bits = 0" using e by (rule violations_equal_zero)
  show "NOT lo AND k_ones bits = 0" using e by (rule violations_equal_zero)
  show s: "is_satisfied_by bits lo" using e by (simp add: adjust_lo_unchanged_iff)
  show "adjust_lo lo bits = Some lo" using s by (rule adjust_lo_satisfied)
next
  assume "lo AND k_zeros bits < NOT lo AND k_ones bits"
  with assms show "\<exists>new_lo. adjust_lo lo bits = Some new_lo \<and> lo < new_lo"
    by (rule adjust_lo_assert_one_violation)
next
  assume less: "NOT lo AND k_ones bits < lo AND k_zeros bits"
  show "case adjust_lo lo bits of
          Some new_lo \<Rightarrow> lo < new_lo \<or> new_lo = k_ones bits
        | None \<Rightarrow> bit lo (LENGTH('a) - 1) \<and> bit (k_zeros bits) (LENGTH('a) - 1)"
  proof (cases "adjust_lo lo bits")
    case None
    then have "bit lo (LENGTH('a) - 1) \<and> bit (k_zeros bits) (LENGTH('a) - 1)"
      by (simp only: adjust_lo_None_iff)
    with None show ?thesis by simp
  next
    case (Some new_lo)
    with assms less have "lo < new_lo \<or> new_lo = k_ones bits"
      by (rule adjust_lo_assert_zero_violation)
    with Some show ?thesis by simp
  qed
qed

theorem C10_adjust_lo_assertions_witness:
  "(\<exists>new_lo. adjust_lo (6 :: 4 word) \<lparr>k_zeros = 0, k_ones = 3\<rparr> = Some new_lo \<and> 6 < new_lo)
   \<and> adjust_lo (12 :: 4 word) \<lparr>k_zeros = 4, k_ones = 9\<rparr> = Some 9
   \<and> ((12 :: 4 word) < 9 \<or> (9 :: 4 word) = k_ones \<lparr>k_zeros = 4, k_ones = 9\<rparr>)"
proof -
  have c1: "consistent \<lparr>k_zeros = 0 :: 4 word, k_ones = 3\<rparr>" by (simp add: consistent_def)
  have l1: "(6 :: 4 word) AND k_zeros \<lparr>k_zeros = 0 :: 4 word, k_ones = 3\<rparr>
      < NOT 6 AND k_ones \<lparr>k_zeros = 0 :: 4 word, k_ones = 3\<rparr>" by simp
  have c2: "consistent \<lparr>k_zeros = 4 :: 4 word, k_ones = 9\<rparr>" by (simp add: consistent_def)
  have l2: "NOT (12 :: 4 word) AND k_ones \<lparr>k_zeros = 4 :: 4 word, k_ones = 9\<rparr>
      < 12 AND k_zeros \<lparr>k_zeros = 4 :: 4 word, k_ones = 9\<rparr>" by simp
  have r2: "adjust_lo (12 :: 4 word) \<lparr>k_zeros = 4, k_ones = 9\<rparr> = Some 9" by code_simp
  from C10_adjust_lo_assertions [OF c1, of 6] l1 C10_adjust_lo_assertions [OF c2, of 12] l2 r2
  show ?thesis by simp
qed

section \<open>Termination of \<open>canonicalize_constraints_simple\<close>\<close>

text \<open>
  C3. For every bound pair and every known-bits mask of width 32 or 64,
  \<open>canonicalize_constraints_simple\<close> terminates (the loop is a total function, by the
  termination proof of \<open>simple_loop\<close>) and leaves its loop within at most \<open>W\<close> iterations;
  in fact within two, since the round after a productive one finds bounds that already
  satisfy the bits. On ordered bounds, \<open>lo \<le> hi\<close>, which is all its callers pass, the run
  also never reaches the undefined shift and returns a result.
\<close>

theorem C3_simple_terminates_within_width:
  "simple_iterations (bounds32 :: 32 word RangeInt) bits32 \<le> 32
   \<and> simple_iterations (bounds64 :: 64 word RangeInt) bits64 \<le> 64
   \<and> (r_lo bounds32 \<le> r_hi bounds32 \<longrightarrow>
        (\<exists>res. canonicalize_constraints_simple bounds32 bits32 = Some res))
   \<and> (r_lo bounds64 \<le> r_hi bounds64 \<longrightarrow>
        (\<exists>res. canonicalize_constraints_simple bounds64 bits64 = Some res))"
proof (intro conjI impI)
  show "simple_iterations bounds32 bits32 \<le> 32"
    using simple_iterations_le_2 [of bounds32 bits32] by simp
  show "simple_iterations bounds64 bits64 \<le> 64"
    using simple_iterations_le_2 [of bounds64 bits64] by simp
  show "\<exists>res. canonicalize_constraints_simple bounds32 bits32 = Some res"
    if "r_lo bounds32 \<le> r_hi bounds32"
    using that by (rule canonicalize_constraints_simple_defined)
  show "\<exists>res. canonicalize_constraints_simple bounds64 bits64 = Some res"
    if "r_lo bounds64 \<le> r_hi bounds64"
    using that by (rule canonicalize_constraints_simple_defined)
qed

theorem C3_simple_terminates_witness:
  "simple_iterations \<lparr>r_lo = 2 :: 32 word, r_hi = 9\<rparr> \<lparr>k_zeros = 3, k_ones = 0\<rparr> \<le> 32
   \<and> simple_iterations \<lparr>r_lo = 2 :: 64 word, r_hi = 9\<rparr> \<lparr>k_zeros = 3, k_ones = 0\<rparr> \<le> 64
   \<and> (\<exists>res. canonicalize_constraints_simple \<lparr>r_lo = 2 :: 32 word, r_hi = 9\<rparr>
               \<lparr>k_zeros = 3, k_ones = 0\<rparr> = Some res)
   \<and> (\<exists>res. canonicalize_constraints_simple \<lparr>r_lo = 2 :: 64 word, r_hi = 9\<rparr>
               \<lparr>k_zeros = 3, k_ones = 0\<rparr> = Some res)"
  using C3_simple_terminates_within_width
    [of "\<lparr>r_lo = 2, r_hi = 9\<rparr>" "\<lparr>k_zeros = 3, k_ones = 0\<rparr>"
        "\<lparr>r_lo = 2, r_hi = 9\<rparr>" "\<lparr>k_zeros = 3, k_ones = 0\<rparr>"]
  by simp

section \<open>The report of \<open>adjust_bounds_from_bits\<close>\<close>

text \<open>
  C6, as stated: infeasible is reported if and only if the new lower bound wraps below
  the old one or the new upper bound exceeds the old one. For \<open>lo = 1\<close>, \<open>hi = 2\<close>,
  \<open>zeros = 3\<close>, \<open>ones = 0\<close> the new lower bound is 4 and the new upper bound is 0: neither
  crosses its old value, and the result is reported as not consistent, since the new
  bounds have crossed each other.
\<close>

theorem C6_adjust_bounds_from_bits_counterexample:
  "(1 :: 32 word) \<le> 2 \<and> consistent \<lparr>k_zeros = 3 :: 32 word, k_ones = 0\<rparr>
   \<and> adjust_lo (1 :: 32 word) \<lparr>k_zeros = 3, k_ones = 0\<rparr> = Some 4
   \<and> adjust_lo (NOT (2 :: 32 word)) \<lparr>k_zeros = 0, k_ones = 3\<rparr> = Some (NOT 0)
   \<and> \<not> (4 :: 32 word) < 1 \<and> \<not> (2 :: 32 word) < 0
   \<and> adjust_bounds_from_bits \<lparr>r_lo = 1 :: 32 word, r_hi = 2\<rparr> \<lparr>k_zeros = 3, k_ones = 0\<rparr>
       = Some \<lparr>a_progress = True, a_is_result_consistent = False,
               a_result = \<lparr>r_lo = 4, r_hi = 0\<rparr>\<rparr>"
  by code_simp


text \<open>
  C6, amended: for consistent \<open>bits\<close> and with \<open>new_lo\<close> and \<open>new_hi\<close> the two values
  the function computes, \<open>adjust_bounds_from_bits\<close> reports infeasible if and only if
  \<open>new_lo\<close> is below the old lower bound, or \<open>new_hi\<close> is above the old upper bound, or
  \<open>new_hi\<close> is below \<open>new_lo\<close>. In every other case it returns the pair
  \<open>[new_lo, new_hi]\<close>, which lies inside the old pair, has both ends satisfying the bits, and
  comes with a progress flag that is true exactly when one of the two bounds changed.
\<close>

theorem C6_adjust_bounds_from_bits_report:
  assumes "consistent bits"
    and "adjust_lo (r_lo bounds) bits = Some new_lo"
    and "adjust_lo (NOT (r_hi bounds)) \<lparr>k_zeros = k_ones bits, k_ones = k_zeros bits\<rparr> = Some flipped"
    and "new_hi = NOT flipped"
  shows "\<exists>res. adjust_bounds_from_bits bounds bits = Some res
     \<and> (\<not> a_is_result_consistent res \<longleftrightarrow>
          new_lo < r_lo bounds \<or> r_hi bounds < new_hi \<or> new_hi < new_lo)
     \<and> (a_is_result_consistent res \<longrightarrow>
          a_result res = \<lparr>r_lo = new_lo, r_hi = new_hi\<rparr>
          \<and> r_lo bounds \<le> new_lo \<and> new_lo \<le> new_hi \<and> new_hi \<le> r_hi bounds
          \<and> is_satisfied_by bits new_lo \<and> is_satisfied_by bits new_hi
          \<and> (a_progress res \<longleftrightarrow> new_lo \<noteq> r_lo bounds \<or> new_hi \<noteq> r_hi bounds))"
proof -
  have s1: "is_satisfied_by bits new_lo"
    using assms(1,2) by (rule adjust_lo_result_satisfied)
  have "is_satisfied_by \<lparr>k_zeros = k_ones bits, k_ones = k_zeros bits\<rparr> flipped"
    using assms(1,3) by (intro adjust_lo_result_satisfied [of _ "NOT (r_hi bounds)"]) (simp_all add: consistent_swapped)
  then have s2: "is_satisfied_by bits new_hi"
    by (simp add: satisfied_by_swapped assms(4))
  show ?thesis
    using assms(2,3) s1 s2
    by (auto simp: adjust_bounds_from_bits_def make_empty_bounds_def Let_def assms(4))
qed

theorem C6_adjust_bounds_from_bits_witness:
  "\<exists>res. adjust_bounds_from_bits \<lparr>r_lo = 2 :: 4 word, r_hi = 9\<rparr> \<lparr>k_zeros = 3, k_ones = 0\<rparr> = Some res
     \<and> a_is_result_consistent res \<and> a_progress res
     \<and> a_result res = \<lparr>r_lo = 4, r_hi = 8\<rparr>
     \<and> is_satisfied_by \<lparr>k_zeros = 3, k_ones = 0\<rparr> (4 :: 4 word)
     \<and> is_satisfied_by \<lparr>k_zeros = 3, k_ones = 0\<rparr> (8 :: 4 word)"
proof -
  let ?bits = "\<lparr>k_zeros = 3 :: 4 word, k_ones = 0\<rparr>"
  let ?bounds = "\<lparr>r_lo = 2 :: 4 word, r_hi = 9\<rparr>"
  have c: "consistent ?bits" by (simp add: consistent_def)
  have l: "adjust_lo (r_lo ?bounds) ?bits = Some 4" by code_simp
  have h: "adjust_lo (NOT (r_hi ?bounds)) \<lparr>k_zeros = k_ones ?bits, k_ones = k_zeros ?bits\<rparr> = Some 7"
    by code_simp
  have n: "(8 :: 4 word) = NOT 7" by simp
  from C6_adjust_bounds_from_bits_report [OF c l h n] show ?thesis by auto
qed
section \<open>Signed and unsigned order\<close>

lemma sint_eq_uint_minus:
  fixes w :: "'a::len word"
  shows "sint w = uint w - (if bit w (LENGTH('a) - 1) then 2 ^ LENGTH('a) else 0)"
proof -
  have "sint w = signed_take_bit (LENGTH('a) - 1) (uint w)" by (simp add: sint_uint)
  also have "\<dots> = take_bit (Suc (LENGTH('a) - 1)) (uint w)
      - 2 ^ Suc (LENGTH('a) - 1) * of_bool (bit (uint w) (LENGTH('a) - 1))"
    by (rule signed_take_bit_eq_take_bit_minus)
  also have "Suc (LENGTH('a) - 1) = LENGTH('a)" by simp
  also have "take_bit LENGTH('a) (uint w) = uint w"
    by (simp add: take_bit_eq_mod)
  finally show ?thesis by (simp add: bit_uint_iff)
qed

lemma sless_same_sign:
  fixes a b :: "'a::len word"
  assumes "bit a (LENGTH('a) - 1) = bit b (LENGTH('a) - 1)"
  shows "a <s b \<longleftrightarrow> a < b" and "a \<le>s b \<longleftrightarrow> a \<le> b"
  using assms by (simp_all add: word_sless_alt word_sle_eq sint_eq_uint_minus word_less_def word_le_def)

lemma sless_neg_nonneg:
  fixes a b :: "'a::len word"
  assumes "bit a (LENGTH('a) - 1)" and "\<not> bit b (LENGTH('a) - 1)"
  shows "a <s b"
proof -
  have "sint a = uint a - 2 ^ LENGTH('a)" and "sint b = uint b"
    using assms by (simp_all add: sint_eq_uint_minus)
  with uint_lt2p [of a] uint_ge_0 [of b] show ?thesis
    unfolding word_sless_alt by linarith
qed

lemma less_nonneg_neg:
  fixes a b :: "'a::len word"
  assumes "\<not> bit a (LENGTH('a) - 1)" and "bit b (LENGTH('a) - 1)"
  shows "a < b"
  using assms by (intro word_less_top_diff [of "LENGTH('a) - 1"]) (auto dest: bit_imp_le_length)

text \<open>In the last branch of \<open>canonicalize_constraints\<close> both sub-ranges are ordered.\<close>

lemma straddle_subranges_ordered:
  fixes slo shi ulo uhi :: "'a::len word"
  assumes u: "\<not> uhi < ulo" and s: "uhi <s ulo" and n: "\<not> uhi <s slo" and p: "\<not> shi <s ulo"
  shows "slo \<le> uhi" and "ulo \<le> shi"
proof -
  let ?top = "LENGTH('a) - 1"
  have d: "bit ulo ?top \<noteq> bit uhi ?top"
    using u s sless_same_sign(1) [of uhi ulo] by auto
  have "\<not> (bit ulo ?top \<and> \<not> bit uhi ?top)"
    using u less_nonneg_neg [of uhi ulo] by auto
  with d have ul: "\<not> bit ulo ?top" and uh: "bit uhi ?top" by auto
  have sl: "bit slo ?top" using n uh sless_neg_nonneg [of uhi slo] by auto
  have sh: "\<not> bit shi ?top" using p ul sless_neg_nonneg [of shi ulo] by auto
  show "slo \<le> uhi" using n sl uh sless_same_sign(2) [of slo uhi] by (simp add: signed.not_less)
  show "ulo \<le> shi" using p sh ul sless_same_sign(2) [of ulo shi] by (simp add: signed.not_less)
qed

text \<open>The signed extremes.\<close>

lemma sint_min_S: "sint (min_S :: 'a::len word) = - (2 ^ (LENGTH('a) - 1))"
proof -
  have b: "bit ((2 :: 'a word) ^ (LENGTH('a) - 1)) (LENGTH('a) - 1)"
    by (simp add: bit_exp_iff)
  then have "(2 :: 'a word) ^ (LENGTH('a) - 1) \<noteq> 0" by auto
  then have "0 < (2 :: 'a word) ^ (LENGTH('a) - 1)" by (simp add: word_greater_zero_iff)
  then have "uint ((2 :: 'a word) ^ (LENGTH('a) - 1)) = 2 ^ (LENGTH('a) - 1)" by (rule uint_2p)
  then have "uint (min_S :: 'a word) = 2 ^ (LENGTH('a) - 1)"
    by (simp add: min_S_def push_bit_of_1)
  moreover have "bit (min_S :: 'a word) (LENGTH('a) - 1)"
    using b by (simp add: min_S_def push_bit_of_1)
  moreover have "(2 :: int) ^ LENGTH('a) = 2 * 2 ^ (LENGTH('a) - 1)"
    by (metis len_gt_0 power_minus_mult mult.commute)
  ultimately show ?thesis by (simp add: sint_eq_uint_minus)
qed

lemma sint_max_S: "sint (max_S :: 'a::len word) = 2 ^ (LENGTH('a) - 1) - 1"
proof -
  have "uint (max_S :: 'a word) = mask (LENGTH('a) - 1)"
    by (simp add: max_S_def uint_mask_eq min_def)
  then have "uint (max_S :: 'a word) = 2 ^ (LENGTH('a) - 1) - 1"
    by (simp add: mask_eq_exp_minus_1)
  moreover have "\<not> bit (max_S :: 'a word) (LENGTH('a) - 1)"
    by (simp add: max_S_def bit_mask_iff)
  ultimately show ?thesis by (simp add: sint_eq_uint_minus)
qed

lemma min_S_least: "(min_S :: 'a::len word) \<le>s x"
  using sint_ge [of x] by (simp add: word_sle_eq sint_min_S)

lemma max_S_greatest: "x \<le>s (max_S :: 'a::len word)"
  using sint_lt [of x] by (simp add: word_sle_eq sint_max_S)

text \<open>\<open>canonicalize_constraints\<close> only calls the loop on ordered bounds, so it always has a result.\<close>

lemma canonicalize_constraints_defined:
  "\<exists>c. canonicalize_constraints p = Some c"
proof -
  let ?s = "p_srange p" and ?u = "p_urange p" and ?b = "p_bits p"
  define u1 where "u1 =
     (if r_hi ?u <s r_lo ?u then
        (if r_hi ?u <s r_lo ?s then ?u\<lparr>r_hi := max_S\<rparr>
         else if r_hi ?s <s r_lo ?u then ?u\<lparr>r_lo := min_S\<rparr>
         else ?u)
      else ?u)"
  define u2 where "u2 = u1\<lparr>r_lo := MAX2_S (r_lo u1) (r_lo ?s), r_hi := MIN2_S (r_hi u1) (r_hi ?s)\<rparr>"
  show ?thesis
  proof (cases "r_hi ?s <s r_lo ?s \<or> r_hi ?u < r_lo ?u \<or> k_zeros ?b AND k_ones ?b \<noteq> 0")
    case True
    then show ?thesis by (auto simp: canonicalize_constraints_def)
  next
    case triv: False
    show ?thesis
    proof (cases "r_lo u1 \<le>s r_hi u1")
      case True
      show ?thesis
      proof (cases "r_hi u2 < r_lo u2")
        case True
        with triv \<open>r_lo u1 \<le>s r_hi u1\<close> show ?thesis
          by (simp add: canonicalize_constraints_def Let_def u1_def [symmetric] u2_def)
      next
        case False
        then have "r_lo u2 \<le> r_hi u2" by simp
        then obtain t where "canonicalize_constraints_simple u2 ?b = Some t"
          using canonicalize_constraints_simple_defined by blast
        with triv \<open>r_lo u1 \<le>s r_hi u1\<close> False show ?thesis
          by (simp add: canonicalize_constraints_def Let_def u1_def [symmetric] u2_def)
      qed
    next
      case False
      then have st: "r_hi u1 <s r_lo u1" by (simp add: signed.not_le)
      have same: "u1 = ?u \<and> r_hi ?u <s r_lo ?u \<and> \<not> r_hi ?u <s r_lo ?s \<and> \<not> r_hi ?s <s r_lo ?u"
      proof (cases "r_hi ?u <s r_lo ?u")
        case False
        with st show ?thesis by (simp add: u1_def)
      next
        case s: True
        show ?thesis
        proof (cases "r_hi ?u <s r_lo ?s")
          case True
          with s have "u1 = ?u\<lparr>r_hi := max_S\<rparr>" by (simp add: u1_def)
          with st have "max_S <s r_lo ?u" by simp
          then show ?thesis using max_S_greatest [of "r_lo ?u"] by (simp add: signed.not_less [symmetric])
        next
          case n1: False
          show ?thesis
          proof (cases "r_hi ?s <s r_lo ?u")
            case True
            with s n1 have "u1 = ?u\<lparr>r_lo := min_S\<rparr>" by (simp add: u1_def)
            with st have "r_hi ?u <s min_S" by simp
            then show ?thesis using min_S_least [of "r_hi ?u"] by (simp add: signed.not_less [symmetric])
          next
            case False
            with s n1 show ?thesis by (simp add: u1_def)
          qed
        qed
      qed
      from triv have "\<not> r_hi ?u < r_lo ?u" by simp
      from straddle_subranges_ordered [OF this, of "r_lo ?s" "r_hi ?s"] same
      have o: "r_lo ?s \<le> r_hi ?u" "r_lo ?u \<le> r_hi ?s" by auto
      obtain neg where neg: "canonicalize_constraints_simple \<lparr>r_lo = r_lo ?s, r_hi = r_hi ?u\<rparr> ?b = Some neg"
        using canonicalize_constraints_simple_defined [of "\<lparr>r_lo = r_lo ?s, r_hi = r_hi ?u\<rparr>" ?b] o(1)
        by auto
      obtain pos where pos: "canonicalize_constraints_simple \<lparr>r_lo = r_lo ?u, r_hi = r_hi ?s\<rparr> ?b = Some pos"
        using canonicalize_constraints_simple_defined [of "\<lparr>r_lo = r_lo ?u, r_hi = r_hi ?s\<rparr>" ?b] o(2)
        by auto
      from triv False same neg pos show ?thesis
        by (simp add: canonicalize_constraints_def Let_def u1_def [symmetric])
    qed
  qed
qed

section \<open>The sign-straddling branch of \<open>canonicalize_constraints\<close>\<close>

text \<open>
  C5. The last branch of \<open>canonicalize_constraints\<close> is reached when no constraint is
  contradictory on its own, the unsigned range read as signed has its lower bound above
  its upper bound, and neither of the two preliminary tightenings applies (the negative
  part and the non-negative part of the unsigned range both meet the signed range). Then
  both sub-ranges are ordered, so both calls of \<open>canonicalize_constraints_simple\<close> have a
  result; and when both results are present, the combined result is present with signed
  range from the negative lower bound to the non-negative upper bound, unsigned range from
  the non-negative lower bound to the negative upper bound, and zeros and ones the bitwise
  AND of the two results' zeros and ones.
\<close>

theorem C5_straddling_combination:
  assumes "\<not> r_hi (p_srange p) <s r_lo (p_srange p)"
    and "\<not> r_hi (p_urange p) < r_lo (p_urange p)"
    and "k_zeros (p_bits p) AND k_ones (p_bits p) = 0"
    and "r_hi (p_urange p) <s r_lo (p_urange p)"
    and "\<not> r_hi (p_urange p) <s r_lo (p_srange p)"
    and "\<not> r_hi (p_srange p) <s r_lo (p_urange p)"
  shows "\<exists>neg_type pos_type.
      canonicalize_constraints_simple
        \<lparr>r_lo = r_lo (p_srange p), r_hi = r_hi (p_urange p)\<rparr> (p_bits p) = Some neg_type
    \<and> canonicalize_constraints_simple
        \<lparr>r_lo = r_lo (p_urange p), r_hi = r_hi (p_srange p)\<rparr> (p_bits p) = Some pos_type
    \<and> (s_present neg_type \<and> s_present pos_type \<longrightarrow>
         canonicalize_constraints p =
           Some \<lparr>c_present = True,
                 c_data =
                   \<lparr>p_srange = \<lparr>r_lo = r_lo (s_bounds neg_type), r_hi = r_hi (s_bounds pos_type)\<rparr>,
                    p_urange = \<lparr>r_lo = r_lo (s_bounds pos_type), r_hi = r_hi (s_bounds neg_type)\<rparr>,
                    p_bits = \<lparr>k_zeros = k_zeros (s_bits neg_type) AND k_zeros (s_bits pos_type),
                              k_ones = k_ones (s_bits neg_type) AND k_ones (s_bits pos_type)\<rparr>\<rparr>\<rparr>)"
proof -
  note o = straddle_subranges_ordered [OF assms(2,4,5,6)]
  obtain neg_type where neg: "canonicalize_constraints_simple
        \<lparr>r_lo = r_lo (p_srange p), r_hi = r_hi (p_urange p)\<rparr> (p_bits p) = Some neg_type"
    using canonicalize_constraints_simple_defined
            [of "\<lparr>r_lo = r_lo (p_srange p), r_hi = r_hi (p_urange p)\<rparr>" "p_bits p"] o(1)
    by auto
  obtain pos_type where pos: "canonicalize_constraints_simple
        \<lparr>r_lo = r_lo (p_urange p), r_hi = r_hi (p_srange p)\<rparr> (p_bits p) = Some pos_type"
    using canonicalize_constraints_simple_defined
            [of "\<lparr>r_lo = r_lo (p_urange p), r_hi = r_hi (p_srange p)\<rparr>" "p_bits p"] o(2)
    by auto
  have ns: "\<not> r_lo (p_urange p) \<le>s r_hi (p_urange p)"
    using assms(4) by (simp add: signed.not_le)
  have "s_present neg_type \<and> s_present pos_type \<longrightarrow>
         canonicalize_constraints p =
           Some \<lparr>c_present = True,
                 c_data =
                   \<lparr>p_srange = \<lparr>r_lo = r_lo (s_bounds neg_type), r_hi = r_hi (s_bounds pos_type)\<rparr>,
                    p_urange = \<lparr>r_lo = r_lo (s_bounds pos_type), r_hi = r_hi (s_bounds neg_type)\<rparr>,
                    p_bits = \<lparr>k_zeros = k_zeros (s_bits neg_type) AND k_zeros (s_bits pos_type),
                              k_ones = k_ones (s_bits neg_type) AND k_ones (s_bits pos_type)\<rparr>\<rparr>\<rparr>"
    using assms ns neg pos by (simp add: canonicalize_constraints_def Let_def)
  with neg pos show ?thesis by blast
qed

theorem C5_straddling_combination_witness:
  "canonicalize_constraints
     \<lparr>p_srange = \<lparr>r_lo = - 5 :: 8 word, r_hi = 5\<rparr>, p_urange = \<lparr>r_lo = 0, r_hi = 255\<rparr>,
      p_bits = \<lparr>k_zeros = 0, k_ones = 0\<rparr>\<rparr>
   = Some \<lparr>c_present = True,
           c_data = \<lparr>p_srange = \<lparr>r_lo = - 5, r_hi = 5\<rparr>, p_urange = \<lparr>r_lo = 0, r_hi = 255\<rparr>,
                     p_bits = \<lparr>k_zeros = 0, k_ones = 0\<rparr>\<rparr>\<rparr>"
proof -
  let ?p = "\<lparr>p_srange = \<lparr>r_lo = - 5 :: 8 word, r_hi = 5\<rparr>, p_urange = \<lparr>r_lo = 0, r_hi = 255\<rparr>,
      p_bits = \<lparr>k_zeros = 0, k_ones = 0\<rparr>\<rparr>"
  have h: "\<not> r_hi (p_srange ?p) <s r_lo (p_srange ?p)" "\<not> r_hi (p_urange ?p) < r_lo (p_urange ?p)"
    "k_zeros (p_bits ?p) AND k_ones (p_bits ?p) = 0" "r_hi (p_urange ?p) <s r_lo (p_urange ?p)"
    "\<not> r_hi (p_urange ?p) <s r_lo (p_srange ?p)" "\<not> r_hi (p_srange ?p) <s r_lo (p_urange ?p)"
    by code_simp+
  have n: "canonicalize_constraints_simple
        \<lparr>r_lo = r_lo (p_srange ?p), r_hi = r_hi (p_urange ?p)\<rparr> (p_bits ?p)
      = Some \<lparr>s_present = True, s_bounds = \<lparr>r_lo = - 5, r_hi = 255\<rparr>,
              s_bits = \<lparr>k_zeros = 0, k_ones = 248\<rparr>\<rparr>"
    by code_simp
  have q: "canonicalize_constraints_simple
        \<lparr>r_lo = r_lo (p_urange ?p), r_hi = r_hi (p_srange ?p)\<rparr> (p_bits ?p)
      = Some \<lparr>s_present = True, s_bounds = \<lparr>r_lo = 0, r_hi = 5\<rparr>,
              s_bits = \<lparr>k_zeros = 248, k_ones = 0\<rparr>\<rparr>"
    by code_simp
  from C5_straddling_combination [OF h] n q show ?thesis by simp
qed
section \<open>Soundness and idempotence of \<open>canonicalize_constraints\<close>\<close>

text \<open>
  In the branch where the unsigned range does not straddle the sign boundary, the source
  intersects it with the signed range by \<^verbatim>\<open>MAX2<S>\<close> and \<^verbatim>\<open>MIN2<S>\<close> and then tests
  emptiness with the unsigned comparison \<^verbatim>\<open>urange._lo > urange._hi\<close> only. When the two
  ranges lie on different sides of the sign boundary the intersection is empty, but the new
  lower bound is non-negative and the new upper bound negative, so as unsigned values they
  are ordered and the test passes.
\<close>

lemma nonneg_not_sle_neg:
  fixes v b :: "'a::len word"
  assumes "\<not> bit v (LENGTH('a) - 1)" and "bit b (LENGTH('a) - 1)"
  shows "\<not> v \<le>s b"
  using sless_neg_nonneg [OF assms(2,1)] by (simp add: signed.not_le)

text \<open>
  C2, at a concrete input of the 32-bit instance: signed range \<open>[-5, -3]\<close>, unsigned range
  \<open>[1, 2]\<close>, \<open>zeros = 0x80000000\<close>, \<open>ones = 0\<close>. No value satisfies the three constraints,
  yet the result is present, and the value 5 satisfies the three constraints of the
  result.
\<close>

theorem C2_canonicalize_admits_foreign_value:
  "\<not> (\<exists>v. contains \<lparr>p_srange = \<lparr>r_lo = - 5 :: 32 word, r_hi = - 3\<rparr>,
                     p_urange = \<lparr>r_lo = 1, r_hi = 2\<rparr>,
                     p_bits = \<lparr>k_zeros = 0x80000000, k_ones = 0\<rparr>\<rparr> v)
   \<and> canonicalize_constraints
        \<lparr>p_srange = \<lparr>r_lo = - 5 :: 32 word, r_hi = - 3\<rparr>, p_urange = \<lparr>r_lo = 1, r_hi = 2\<rparr>,
         p_bits = \<lparr>k_zeros = 0x80000000, k_ones = 0\<rparr>\<rparr>
      = Some \<lparr>c_present = True,
              c_data = \<lparr>p_srange = \<lparr>r_lo = 1, r_hi = 0x7FFFFFFF\<rparr>,
                        p_urange = \<lparr>r_lo = 1, r_hi = 0x7FFFFFFF\<rparr>,
                        p_bits = \<lparr>k_zeros = 0x80000000, k_ones = 0\<rparr>\<rparr>\<rparr>
   \<and> contains \<lparr>p_srange = \<lparr>r_lo = 1 :: 32 word, r_hi = 0x7FFFFFFF\<rparr>,
                p_urange = \<lparr>r_lo = 1, r_hi = 0x7FFFFFFF\<rparr>,
                p_bits = \<lparr>k_zeros = 0x80000000, k_ones = 0\<rparr>\<rparr> 5"
proof (intro conjI)
  show "\<not> (\<exists>v. contains \<lparr>p_srange = \<lparr>r_lo = - 5 :: 32 word, r_hi = - 3\<rparr>,
                     p_urange = \<lparr>r_lo = 1, r_hi = 2\<rparr>,
                     p_bits = \<lparr>k_zeros = 0x80000000, k_ones = 0\<rparr>\<rparr> v)"
  proof
    assume "\<exists>v. contains \<lparr>p_srange = \<lparr>r_lo = - 5 :: 32 word, r_hi = - 3\<rparr>,
                     p_urange = \<lparr>r_lo = 1, r_hi = 2\<rparr>,
                     p_bits = \<lparr>k_zeros = 0x80000000, k_ones = 0\<rparr>\<rparr> v"
    then obtain v :: "32 word" where u: "v \<le> 2" and s: "v \<le>s - 3"
      by (auto simp: contains_def)
    have "\<not> bit (2 :: 32 word) (LENGTH(32) - 1)" by simp
    with u have "\<not> bit v (LENGTH(32) - 1)" using top_bit_of_le by blast
    moreover have "bit (- 3 :: 32 word) (LENGTH(32) - 1)" by simp
    ultimately have "\<not> v \<le>s - 3" by (rule nonneg_not_sle_neg)
    with s show False by simp
  qed
qed code_simp+

text \<open>
  C4, at a concrete input of the 32-bit instance: signed range \<open>[-5, -3]\<close>, unsigned range
  \<open>[1, 2]\<close>, no known bits. The result is present with signed range \<open>[1, -3]\<close>; applying
  \<open>canonicalize_constraints\<close> to that result returns the empty result.
\<close>

theorem C4_recanonicalize_gives_empty:
  "canonicalize_constraints
     \<lparr>p_srange = \<lparr>r_lo = - 5 :: 32 word, r_hi = - 3\<rparr>, p_urange = \<lparr>r_lo = 1, r_hi = 2\<rparr>,
      p_bits = \<lparr>k_zeros = 0, k_ones = 0\<rparr>\<rparr>
   = Some \<lparr>c_present = True,
           c_data = \<lparr>p_srange = \<lparr>r_lo = 1, r_hi = - 3\<rparr>, p_urange = \<lparr>r_lo = 1, r_hi = - 3\<rparr>,
                     p_bits = \<lparr>k_zeros = 0, k_ones = 0\<rparr>\<rparr>\<rparr>
   \<and> canonicalize_constraints
       \<lparr>p_srange = \<lparr>r_lo = 1 :: 32 word, r_hi = - 3\<rparr>, p_urange = \<lparr>r_lo = 1, r_hi = - 3\<rparr>,
        p_bits = \<lparr>k_zeros = 0, k_ones = 0\<rparr>\<rparr>
     = Some make_empty_canonical
   \<and> \<not> c_present (make_empty_canonical :: 32 word CanonicalizedTypeIntPrototype)"
  by code_simp
section \<open>Widening against one fixed new type\<close>

lemma int_type_is_equal_refl: "int_type_is_equal t t"
  by (simp add: int_type_is_equal_def)

lemma TYPE_DOMAIN_is_superset: "int_type_is_subset (TYPE_DOMAIN WidenMax) t"
  by (simp add: int_type_is_subset_def TYPE_DOMAIN_def min_S_least max_S_greatest)

lemma int_type_widen_null: "int_type_widen tm WidenMax new None limit = Some new"
  by (simp add: int_type_widen_def)

lemma int_type_widen_same: "int_type_widen tm WidenMax new (Some new) limit = Some new"
  by (simp add: int_type_widen_def int_type_is_equal_refl)

lemma int_type_widen_domain:
  "int_type_widen tm WidenMax new (Some (TYPE_DOMAIN WidenMax)) limit = Some (TYPE_DOMAIN WidenMax)"
  by (simp add: int_type_widen_def TYPE_DOMAIN_is_superset)

text \<open>
  For fixed new and limit types a call returns the old type, the new type, the domain, or
  one value of \<open>try_make\<close> that does not depend on the old type.
\<close>

lemma int_type_widen_cases:
  fixes new :: "'a::len word TypeInt"
  obtains T where "\<And>old. int_type_widen tm WidenMax new old limit
      \<in> {old, Some new, Some (TYPE_DOMAIN WidenMax), T}"
proof -
  define T where "T =
    (if t_widen new < WidenMax then
       tm \<lparr>p_srange = \<lparr>r_lo = t_lo new, r_hi = t_hi new\<rparr>,
           p_urange = \<lparr>r_lo = t_ulo new, r_hi = t_uhi new\<rparr>, p_bits = t_bits new\<rparr>
          (t_widen new + 1)
     else
       (case limit of
          None \<Rightarrow>
            tm \<lparr>p_srange = \<lparr>r_lo = min_S, r_hi = max_S\<rparr>, p_urange = \<lparr>r_lo = 0, r_hi = - 1\<rparr>,
                p_bits = \<lparr>k_zeros = k_zeros (t_bits new), k_ones = k_ones (t_bits new)\<rparr>\<rparr>
               WidenMax
        | Some l \<Rightarrow>
            tm \<lparr>p_srange = \<lparr>r_lo = t_lo l, r_hi = t_hi l\<rparr>,
                p_urange = \<lparr>r_lo = t_ulo l, r_hi = t_uhi l\<rparr>,
                p_bits = \<lparr>k_zeros = k_zeros (t_bits new) OR k_zeros (t_bits l),
                          k_ones = k_ones (t_bits new) OR k_ones (t_bits l)\<rparr>\<rparr>
               WidenMax))"
  have "int_type_widen tm WidenMax new old limit
      \<in> {old, Some new, Some (TYPE_DOMAIN WidenMax), T}" for old
    by (cases old) (auto simp: int_type_widen_def T_def split: option.splits)
  then show thesis by (rule that)
qed

lemma int_type_widen_stable_after_two:
  fixes new :: "'a::len word TypeInt"
  shows "int_type_widen tm WidenMax new
           (int_type_widen tm WidenMax new (int_type_widen tm WidenMax new old limit) limit) limit
         = int_type_widen tm WidenMax new (int_type_widen tm WidenMax new old limit) limit"
proof -
  define F where "F = (\<lambda>old. int_type_widen tm WidenMax new old limit)"
  have "F (F (F old)) = F (F old)"
  proof -
  obtain T where c: "\<And>old. F old \<in> {old, Some new, Some (TYPE_DOMAIN WidenMax), T}"
    unfolding F_def using int_type_widen_cases [of tm WidenMax new limit] by blast
  have n: "F (Some new) = Some new" unfolding F_def by (rule int_type_widen_same)
  have d: "F (Some (TYPE_DOMAIN WidenMax)) = Some (TYPE_DOMAIN WidenMax)"
    unfolding F_def by (rule int_type_widen_domain)
  have stay: "F (F x) = F x" if "F x \<in> {x, Some new, Some (TYPE_DOMAIN WidenMax)}" for x
    using that n d by auto
  from c [of old] consider "F old \<in> {old, Some new, Some (TYPE_DOMAIN WidenMax)}" | "F old = T"
    by auto
  then show ?thesis
  proof cases
    case 1
    then have "F (F old) = F old" by (rule stay)
    then show ?thesis by simp
  next
    case 2
    from c [of T] have "F T \<in> {T, Some new, Some (TYPE_DOMAIN WidenMax)}" by auto
    then have "F (F T) = F T" by (rule stay)
    with 2 show ?thesis by simp
  qed
  qed
  then show ?thesis by (simp add: F_def)
qed

lemma widen_iterate_replicate:
  "widen_iterate tm WidenMax limit old (replicate (Suc n) new) =
     widen_iterate tm WidenMax limit (int_type_widen tm WidenMax new old limit) (replicate n new)"
  by simp

lemma widen_iterate_constant:
  "widen_iterate tm WidenMax limit old (replicate (n + 2) new) =
     widen_iterate tm WidenMax limit old [new, new]"
proof (induction n arbitrary: old)
  case 0
  show ?case by (simp add: numeral_2_eq_2)
next
  case (Suc n)
  have "widen_iterate tm WidenMax limit old (replicate (Suc n + 2) new) =
        widen_iterate tm WidenMax limit (int_type_widen tm WidenMax new old limit)
          (replicate (n + 2) new)"
    by simp
  also have "\<dots> = widen_iterate tm WidenMax limit (int_type_widen tm WidenMax new old limit) [new, new]"
    by (rule Suc.IH)
  also have "\<dots> = widen_iterate tm WidenMax limit old [new, new]"
    using int_type_widen_stable_after_two [of tm WidenMax new old limit] by simp
  finally show ?case .
qed

text \<open>
  C7, as stated: against any fixed sequence of new candidate types the result stops
  changing within (maximum widen hint + 2) calls. With widen hints from 0 to 3, start from
  the range \<open>[0, 127]\<close> and offer the ranges \<open>[0, 255]\<close>, \<open>[0, 511]\<close>, and so on, each with
  widen hint 0; every one of them is the type \<open>try_make\<close> makes of its bounds. Each call
  finds a new type that contains the old one and whose hint is not above the old one's, and
  returns the new range with hint 1: the result of the sixth call differs from the
  result of the fifth.
\<close>

theorem C7_widen_growing_sequence_counterexample:
  "try_make 0 3 (range_prototype 7) 0 = Some (range_type 7 0)
   \<and> try_make 0 3 (range_prototype 8) 0 = Some (range_type 8 0)
   \<and> try_make 0 3 (range_prototype 9) 0 = Some (range_type 9 0)
   \<and> try_make 0 3 (range_prototype 10) 0 = Some (range_type 10 0)
   \<and> try_make 0 3 (range_prototype 11) 0 = Some (range_type 11 0)
   \<and> try_make 0 3 (range_prototype 12) 0 = Some (range_type 12 0)
   \<and> try_make 0 3 (range_prototype 13) 0 = Some (range_type 13 0)
   \<and> widen_iterate (try_make 0 3) 3 None (Some (range_type 7 0))
        [range_type 8 0, range_type 9 0, range_type 10 0, range_type 11 0, range_type 12 0]
      = Some (range_type 12 1)
   \<and> widen_iterate (try_make 0 3) 3 None (Some (range_type 7 0))
        [range_type 8 0, range_type 9 0, range_type 10 0, range_type 11 0, range_type 12 0,
         range_type 13 0]
      = Some (range_type 13 1)
   \<and> range_type 12 1 \<noteq> range_type 13 1"
  by code_simp

text \<open>
  C7, amended: iterated widening against one fixed new type stabilizes. Starting from any
  old type and applying \<open>int_type_widen\<close> repeatedly with the same new type and the same
  limit type, each result fed back as the old type, the resulting type stops changing
  within at most two calls, hence within (maximum widen hint + 2) calls. This holds for
  every \<open>try_make\<close> and every value of \<open>WidenMax\<close>.
\<close>

theorem C7_widen_constant_sequence_stabilizes:
  "widen_iterate try_make' WidenMax limit_type old_type (replicate (n + 2) new_type) =
     widen_iterate try_make' WidenMax limit_type old_type [new_type, new_type]
   \<and> widen_iterate try_make' WidenMax limit_type old_type
        (replicate (n + (nat WidenMax + 2)) new_type) =
     widen_iterate try_make' WidenMax limit_type old_type
        (replicate (nat WidenMax + 2) new_type)"
proof
  show "widen_iterate try_make' WidenMax limit_type old_type (replicate (n + 2) new_type) =
     widen_iterate try_make' WidenMax limit_type old_type [new_type, new_type]"
    by (rule widen_iterate_constant)
  have "widen_iterate try_make' WidenMax limit_type old_type
        (replicate ((n + nat WidenMax) + 2) new_type) =
     widen_iterate try_make' WidenMax limit_type old_type [new_type, new_type]"
    by (rule widen_iterate_constant)
  moreover have "widen_iterate try_make' WidenMax limit_type old_type
        (replicate (nat WidenMax + 2) new_type) =
     widen_iterate try_make' WidenMax limit_type old_type [new_type, new_type]"
    by (rule widen_iterate_constant)
  ultimately show "widen_iterate try_make' WidenMax limit_type old_type
        (replicate (n + (nat WidenMax + 2)) new_type) =
     widen_iterate try_make' WidenMax limit_type old_type
        (replicate (nat WidenMax + 2) new_type)"
    by (simp add: add.assoc)
qed

theorem C7_widen_constant_sequence_witness:
  "widen_iterate (try_make 0 3) 3 None (Some (range_type 7 0))
     [range_type 8 0, range_type 8 0, range_type 8 0, range_type 8 0, range_type 8 0]
   = Some (range_type 8 1)"
proof -
  have "widen_iterate (try_make 0 3) 3 None (Some (range_type 7 0)) [range_type 8 0, range_type 8 0]
      = Some (range_type 8 1)"
    by code_simp
  with C7_widen_constant_sequence_stabilizes [of "try_make 0 3" 3 None "Some (range_type 7 0)" 3 "range_type 8 0"]
  show ?thesis by (simp add: numeral_eq_Suc)
qed
section \<open>Concrete cases\<close>

text \<open>
  C8. For \<open>lo = 0b0010\<close>, \<open>hi = 0b1001\<close>, \<open>zeros = 0b0011\<close>, \<open>ones = 0b0000\<close> the tightened
  bounds are \<open>[4, 8]\<close>: one step of \<open>adjust_bounds_from_bits\<close> moves the lower bound up to 4
  and the upper bound down to 8, and \<open>canonicalize_constraints_simple\<close> returns these
  bounds as present. This holds at width 4 and at the two widths the source instantiates.
\<close>

theorem C8_bounds_2_9_multiples_of_4:
  "adjust_bounds_from_bits \<lparr>r_lo = 2 :: 4 word, r_hi = 9\<rparr> \<lparr>k_zeros = 3, k_ones = 0\<rparr>
     = Some \<lparr>a_progress = True, a_is_result_consistent = True,
             a_result = \<lparr>r_lo = 4, r_hi = 8\<rparr>\<rparr>
   \<and> canonicalize_constraints_simple \<lparr>r_lo = 2 :: 4 word, r_hi = 9\<rparr> \<lparr>k_zeros = 3, k_ones = 0\<rparr>
     = Some \<lparr>s_present = True, s_bounds = \<lparr>r_lo = 4, r_hi = 8\<rparr>,
             s_bits = \<lparr>k_zeros = 3, k_ones = 0\<rparr>\<rparr>
   \<and> canonicalize_constraints_simple \<lparr>r_lo = 2 :: 32 word, r_hi = 9\<rparr> \<lparr>k_zeros = 3, k_ones = 0\<rparr>
     = Some \<lparr>s_present = True, s_bounds = \<lparr>r_lo = 4, r_hi = 8\<rparr>,
             s_bits = \<lparr>k_zeros = - 13, k_ones = 0\<rparr>\<rparr>
   \<and> canonicalize_constraints_simple \<lparr>r_lo = 2 :: 64 word, r_hi = 9\<rparr> \<lparr>k_zeros = 3, k_ones = 0\<rparr>
     = Some \<lparr>s_present = True, s_bounds = \<lparr>r_lo = 4, r_hi = 8\<rparr>,
             s_bits = \<lparr>k_zeros = - 13, k_ones = 0\<rparr>\<rparr>"
  by code_simp

theorem C8_bounds_2_9_witness:
  "map_option s_bounds
     (canonicalize_constraints_simple \<lparr>r_lo = 2 :: 4 word, r_hi = 9\<rparr> \<lparr>k_zeros = 3, k_ones = 0\<rparr>)
     = Some \<lparr>r_lo = 4, r_hi = 8\<rparr>"
  using C8_bounds_2_9_multiples_of_4 by simp

text \<open>
  C9, as stated: at width 4, \<open>adjust_lo\<close> of \<open>lo = 0b1100\<close> with \<open>zeros = 0b0100\<close>,
  \<open>ones = 0b1001\<close> returns \<open>0b0001\<close>. The code does not return 1.
\<close>

theorem C9_adjust_lo_12_is_not_1:
  "adjust_lo (12 :: 4 word) \<lparr>k_zeros = 4, k_ones = 9\<rparr> \<noteq> Some 1"
  by code_simp

text \<open>
  C9, amended: at width 4, \<open>adjust_lo\<close> of \<open>lo = 0b1100\<close> with \<open>zeros = 0b0100\<close>,
  \<open>ones = 0b1001\<close> returns \<open>0b1001\<close> (9), the value of \<open>ones\<close>, which is below \<open>lo\<close>: the
  wrap-around that signals that no value from 12 on satisfies the bits.
\<close>

theorem C9_adjust_lo_12_wraps_to_ones:
  "adjust_lo (12 :: 4 word) \<lparr>k_zeros = 4, k_ones = 9\<rparr> = Some 9 \<and> (9 :: 4 word) < 12
   \<and> \<not> (\<exists>v :: 4 word. 12 \<le> v \<and> is_satisfied_by \<lparr>k_zeros = 4, k_ones = 9\<rparr> v)"
proof (intro conjI)
  show r: "adjust_lo (12 :: 4 word) \<lparr>k_zeros = 4, k_ones = 9\<rparr> = Some 9" by code_simp
  show "(9 :: 4 word) < 12" by simp
  have c: "consistent \<lparr>k_zeros = 4 :: 4 word, k_ones = 9\<rparr>" by (simp add: consistent_def)
  show "\<not> (\<exists>v :: 4 word. 12 \<le> v \<and> is_satisfied_by \<lparr>k_zeros = 4, k_ones = 9\<rparr> v)"
  proof
    assume "\<exists>v :: 4 word. 12 \<le> v \<and> is_satisfied_by \<lparr>k_zeros = 4, k_ones = 9\<rparr> v"
    then obtain v :: "4 word" where "12 \<le> v" "is_satisfied_by \<lparr>k_zeros = 4, k_ones = 9\<rparr> v"
      by blast
    with c r have "(12 :: 4 word) \<le> 9 \<and> 9 \<le> v" by (rule adjust_lo_least)
    then show False by simp
  qed
qed

end
